theory Spec2Isabelle
  imports Main "HOL-Library.AList"
begin

section \<open>Python values used by the program\<close>

text \<open>
  The program is Python. Its integers are unbounded (\<open>int\<close>), its lists are indexed by
  integers where a negative index counts from the end and an index out of range raises
  \<open>IndexError\<close>. A raise is a value: \<open>Inl IndexError\<close>. \<open>random.randint(a, b)\<close> raises
  \<open>ValueError\<close> on an empty range and \<open>random.choice\<close> raises \<open>IndexError\<close> on an empty
  sequence.
\<close>

datatype py_error = IndexError | ValueError

definition py_index :: "'a list \<Rightarrow> int \<Rightarrow> py_error + 'a" where
  \<comment> \<open>\<open>xs[i]\<close>\<close>
  "py_index xs i =
     (if 0 \<le> i \<and> i < int (length xs) then Inr (xs ! nat i)
      else if i < 0 \<and> - int (length xs) \<le> i then Inr (xs ! nat (int (length xs) + i))
      else Inl IndexError)"

definition py_store :: "'a list \<Rightarrow> int \<Rightarrow> 'a \<Rightarrow> py_error + 'a list" where
  \<comment> \<open>\<open>xs[i] = v\<close>\<close>
  "py_store xs i v =
     (if 0 \<le> i \<and> i < int (length xs) then Inr (xs[nat i := v])
      else if i < 0 \<and> - int (length xs) \<le> i then Inr (xs[nat (int (length xs) + i) := v])
      else Inl IndexError)"

definition py_range :: "int \<Rightarrow> int \<Rightarrow> int list" where
  \<comment> \<open>\<open>range(a, b)\<close>: the integers from \<open>a\<close> up to, not including, \<open>b\<close>\<close>
  "py_range a b = [a..b - 1]"

section \<open>Tile catalog\<close>

datatype TileType = WALL | FLOOR | STAIRS_DOWN | STAIRS_UP

fun TileProperties_is_walkable :: "TileType \<Rightarrow> bool" where
  "TileProperties_is_walkable WALL = False"
| "TileProperties_is_walkable FLOOR = True"
| "TileProperties_is_walkable STAIRS_DOWN = True"
| "TileProperties_is_walkable STAIRS_UP = True"

fun TileProperties_is_transparent :: "TileType \<Rightarrow> bool" where
  "TileProperties_is_transparent WALL = False"
| "TileProperties_is_transparent FLOOR = True"
| "TileProperties_is_transparent STAIRS_DOWN = True"
| "TileProperties_is_transparent STAIRS_UP = True"

fun TileProperties_get_symbol :: "TileType \<Rightarrow> string" where
  "TileProperties_get_symbol WALL = ''#''"
| "TileProperties_get_symbol FLOOR = ''.''"
| "TileProperties_get_symbol STAIRS_DOWN = ''>''"
| "TileProperties_get_symbol STAIRS_UP = ''<''"

section \<open>Room\<close>

text \<open>
  The fields \<open>x\<close>, \<open>y\<close>, \<open>width\<close>, \<open>height\<close> of the class \<open>Room\<close> carry the prefix
  \<open>room_\<close> here.
\<close>

record Room =
  room_x :: int
  room_y :: int
  room_width :: int
  room_height :: int

definition center :: "Room \<Rightarrow> int \<times> int" where
  "center r = (room_x r + room_width r div 2, room_y r + room_height r div 2)"

definition intersects :: "Room \<Rightarrow> Room \<Rightarrow> bool" where
  "intersects r other \<longleftrightarrow>
     room_x r < room_x other + room_width other \<and>
     room_x r + room_width r > room_x other \<and>
     room_y r < room_y other + room_height other \<and>
     room_y r + room_height r > room_y other"

definition contains_point :: "Room \<Rightarrow> int \<Rightarrow> int \<Rightarrow> bool" where
  "contains_point r px py \<longleftrightarrow>
     room_x r \<le> px \<and> px < room_x r + room_width r \<and>
     room_y r \<le> py \<and> py < room_y r + room_height r"

definition get_inner_area :: "Room \<Rightarrow> (int \<times> int) list" where
  \<comment> \<open>rows outermost, as the two nested loops append\<close>
  "get_inner_area r =
     concat (map (\<lambda>py. map (\<lambda>px. (px, py))
                   (py_range (room_x r + 1) (room_x r + room_width r - 1)))
               (py_range (room_y r + 1) (room_y r + room_height r - 1)))"

section \<open>GameMap: the grid and its accessors\<close>

record GameMap =
  width :: int
  height :: int
  floor_number :: int
  tiles :: "TileType list list"
  rooms :: "Room list"
  stairs_position :: "(int \<times> int) option"
  spawn_point :: "(int \<times> int) option"

definition GameMap_init :: "int \<Rightarrow> int \<Rightarrow> int \<Rightarrow> GameMap" where
  \<comment> \<open>\<open>GameMap(width, height, floor_number)\<close>: all walls, \<open>height\<close> rows of \<open>width\<close> tiles\<close>
  "GameMap_init w h f =
     \<lparr>width = w, height = h, floor_number = f,
      tiles = replicate (nat h) (replicate (nat w) WALL),
      rooms = [], stairs_position = None, spawn_point = None\<rparr>"

definition tile_read :: "TileType list list \<Rightarrow> int \<Rightarrow> int \<Rightarrow> py_error + TileType" where
  \<comment> \<open>\<open>tiles[y][x]\<close>\<close>
  "tile_read ts px py =
     (case py_index ts py of Inl e \<Rightarrow> Inl e | Inr row \<Rightarrow> py_index row px)"

definition tile_write ::
  "TileType list list \<Rightarrow> int \<Rightarrow> int \<Rightarrow> TileType \<Rightarrow> py_error + TileType list list" where
  \<comment> \<open>\<open>tiles[y][x] = v\<close>: the row is fetched, then updated in place\<close>
  "tile_write ts px py v =
     (case py_index ts py of
        Inl e \<Rightarrow> Inl e
      | Inr row \<Rightarrow>
          (case py_store row px v of
             Inl e \<Rightarrow> Inl e
           | Inr row' \<Rightarrow> py_store ts py row'))"

definition is_valid_position :: "GameMap \<Rightarrow> int \<Rightarrow> int \<Rightarrow> bool" where
  "is_valid_position m px py \<longleftrightarrow> 0 \<le> px \<and> px < width m \<and> 0 \<le> py \<and> py < height m"

definition is_walkable :: "GameMap \<Rightarrow> int \<Rightarrow> int \<Rightarrow> py_error + bool" where
  "is_walkable m px py =
     (if \<not> is_valid_position m px py then Inr False
      else case tile_read (tiles m) px py of
             Inl e \<Rightarrow> Inl e
           | Inr t \<Rightarrow> Inr (TileProperties_is_walkable t))"

definition get_tile :: "GameMap \<Rightarrow> int \<Rightarrow> int \<Rightarrow> py_error + TileType option" where
  "get_tile m px py =
     (if \<not> is_valid_position m px py then Inr None
      else case tile_read (tiles m) px py of
             Inl e \<Rightarrow> Inl e
           | Inr t \<Rightarrow> Inr (Some t))"

definition set_tile :: "GameMap \<Rightarrow> int \<Rightarrow> int \<Rightarrow> TileType \<Rightarrow> py_error + bool \<times> GameMap" where
  "set_tile m px py v =
     (if \<not> is_valid_position m px py then Inr (False, m)
      else case tile_write (tiles m) px py v of
             Inl e \<Rightarrow> Inl e
           | Inr ts \<Rightarrow> Inr (True, m\<lparr>tiles := ts\<rparr>))"

text \<open>
  The shape every method of \<open>GameMap\<close> keeps: \<open>height\<close> rows of \<open>width\<close> tiles each.
  The constructor builds it.
\<close>

definition wf_map :: "GameMap \<Rightarrow> bool" where
  "wf_map m \<longleftrightarrow>
     int (length (tiles m)) = max 0 (height m) \<and>
     list_all (\<lambda>row. int (length row) = max 0 (width m)) (tiles m)"

section \<open>The random generator\<close>

text \<open>
  The program draws from Python's process-wide generator. Here the generator is a tape
  of naturals, one consumed per call, so that every theorem holds for every outcome of every
  draw; an exhausted tape yields 0. \<open>randint a b\<close> maps the drawn number into \<open>a..b\<close>,
  \<open>choice\<close> into the indices of the sequence, and \<open>random.random() < 0.5\<close> is the parity of
  the drawn number.
\<close>

type_synonym rng = "nat list"

fun draw :: "rng \<Rightarrow> nat \<times> rng" where
  "draw [] = (0, [])"
| "draw (r # g) = (r, g)"

definition randint :: "int \<Rightarrow> int \<Rightarrow> rng \<Rightarrow> py_error + int \<times> rng" where
  "randint a b g =
     (if b < a then Inl ValueError
      else case draw g of (r, g') \<Rightarrow> Inr (a + int r mod (b - a + 1), g'))"

definition choice :: "'a list \<Rightarrow> rng \<Rightarrow> py_error + 'a \<times> rng" where
  "choice xs g =
     (if xs = [] then Inl IndexError
      else case draw g of (r, g') \<Rightarrow> Inr (xs ! (r mod length xs), g'))"

definition random_below_half :: "rng \<Rightarrow> bool \<times> rng" where
  "random_below_half g = (case draw g of (r, g') \<Rightarrow> (even r, g'))"

section \<open>GameMap: generation\<close>

text \<open>A run of assignments \<open>self.tiles[y][x] = v\<close> over a list of coordinates, in order.\<close>

fun write_all ::
  "TileType list list \<Rightarrow> (int \<times> int) list \<Rightarrow> TileType \<Rightarrow> py_error + TileType list list" where
  "write_all ts [] v = Inr ts"
| "write_all ts ((px, py) # ps) v =
     (case tile_write ts px py v of
        Inl e \<Rightarrow> Inl e
      | Inr ts' \<Rightarrow> write_all ts' ps v)"

definition carve_room :: "GameMap \<Rightarrow> Room \<Rightarrow> py_error + GameMap" where
  "carve_room m room =
     (case write_all (tiles m)
             (concat (map (\<lambda>py. map (\<lambda>px. (px, py))
                        (py_range (room_x room + 1) (room_x room + room_width room - 1)))
                      (py_range (room_y room + 1) (room_y room + room_height room - 1))))
             FLOOR of
        Inl e \<Rightarrow> Inl e
      | Inr ts \<Rightarrow> Inr (m\<lparr>tiles := ts\<rparr>))"

text \<open>
  One pass of the loop of \<open>_generate_rooms\<close>, with \<open>min_room_size = 5\<close> and
  \<open>max_room_size = 15\<close>. Each \<open>continue\<close> returns the map as it is.
\<close>

definition room_attempt :: "GameMap \<Rightarrow> rng \<Rightarrow> py_error + GameMap \<times> rng" where
  "room_attempt m g =
     (case randint 5 15 g of
        Inl e \<Rightarrow> Inl e
      | Inr (rw, g1) \<Rightarrow>
     (case randint 5 15 g1 of
        Inl e \<Rightarrow> Inl e
      | Inr (rh, g2) \<Rightarrow>
          let max_x = width m - rw - 1;
              max_y = height m - rh - 1
          in if max_x \<le> 1 \<or> max_y \<le> 1 then Inr (m, g2)
             else
     (case randint 1 max_x g2 of
        Inl e \<Rightarrow> Inl e
      | Inr (rx, g3) \<Rightarrow>
     (case randint 1 max_y g3 of
        Inl e \<Rightarrow> Inl e
      | Inr (ry, g4) \<Rightarrow>
          let new_room = \<lparr>room_x = rx, room_y = ry, room_width = rw, room_height = rh\<rparr>
          in if list_ex (intersects new_room) (rooms m) then Inr (m, g4)
             else
     (case carve_room m new_room of
        Inl e \<Rightarrow> Inl e
      | Inr m' \<Rightarrow> Inr (m'\<lparr>rooms := rooms m' @ [new_room]\<rparr>, g4))))))"

fun generate_rooms_loop :: "nat \<Rightarrow> GameMap \<Rightarrow> rng \<Rightarrow> py_error + GameMap \<times> rng" where
  "generate_rooms_loop 0 m g = Inr (m, g)"
| "generate_rooms_loop (Suc n) m g =
     (case room_attempt m g of
        Inl e \<Rightarrow> Inl e
      | Inr (m', g') \<Rightarrow> generate_rooms_loop n m' g')"

definition generate_rooms :: "GameMap \<Rightarrow> rng \<Rightarrow> py_error + GameMap \<times> rng" where
  \<comment> \<open>\<open>min_rooms = 6\<close>, \<open>max_rooms = 12\<close>\<close>
  "generate_rooms m g =
     (case randint 6 12 g of
        Inl e \<Rightarrow> Inl e
      | Inr (num_rooms, g') \<Rightarrow> generate_rooms_loop (nat num_rooms) m g')"

definition create_horizontal_tunnel :: "GameMap \<Rightarrow> int \<Rightarrow> int \<Rightarrow> int \<Rightarrow> py_error + GameMap" where
  "create_horizontal_tunnel m x_start x_end py =
     (case write_all (tiles m)
             (filter (\<lambda>(px, py). 0 < px \<and> px < width m - 1 \<and> 0 < py \<and> py < height m - 1)
                (map (\<lambda>px. (px, py)) (py_range (min x_start x_end) (max x_start x_end + 1))))
             FLOOR of
        Inl e \<Rightarrow> Inl e
      | Inr ts \<Rightarrow> Inr (m\<lparr>tiles := ts\<rparr>))"

definition create_vertical_tunnel :: "GameMap \<Rightarrow> int \<Rightarrow> int \<Rightarrow> int \<Rightarrow> py_error + GameMap" where
  "create_vertical_tunnel m y_start y_end px =
     (case write_all (tiles m)
             (filter (\<lambda>(px, py). 0 < px \<and> px < width m - 1 \<and> 0 < py \<and> py < height m - 1)
                (map (\<lambda>py. (px, py)) (py_range (min y_start y_end) (max y_start y_end + 1))))
             FLOOR of
        Inl e \<Rightarrow> Inl e
      | Inr ts \<Rightarrow> Inr (m\<lparr>tiles := ts\<rparr>))"

definition create_corridor ::
  "GameMap \<Rightarrow> int \<times> int \<Rightarrow> int \<times> int \<Rightarrow> rng \<Rightarrow> py_error + GameMap \<times> rng" where
  "create_corridor m start end g =
     (case (start, end) of
        ((start_x, start_y), (end_x, end_y)) \<Rightarrow>
          (case random_below_half g of
             (horizontal_first, g') \<Rightarrow>
               if horizontal_first then
                 (case create_horizontal_tunnel m start_x end_x start_y of
                    Inl e \<Rightarrow> Inl e
                  | Inr m1 \<Rightarrow>
                      (case create_vertical_tunnel m1 start_y end_y end_x of
                         Inl e \<Rightarrow> Inl e
                       | Inr m2 \<Rightarrow> Inr (m2, g')))
               else
                 (case create_vertical_tunnel m start_y end_y start_x of
                    Inl e \<Rightarrow> Inl e
                  | Inr m1 \<Rightarrow>
                      (case create_horizontal_tunnel m1 start_x end_x end_y of
                         Inl e \<Rightarrow> Inl e
                       | Inr m2 \<Rightarrow> Inr (m2, g')))))"

text \<open>The loop of \<open>_connect_rooms\<close> over the indices \<open>i\<close>: room \<open>i\<close> to room \<open>i + 1\<close>.\<close>

fun connect_rooms_loop :: "nat list \<Rightarrow> GameMap \<Rightarrow> rng \<Rightarrow> py_error + GameMap \<times> rng" where
  "connect_rooms_loop [] m g = Inr (m, g)"
| "connect_rooms_loop (i # is) m g =
     (case py_index (rooms m) (int i) of
        Inl e \<Rightarrow> Inl e
      | Inr room1 \<Rightarrow>
     (case py_index (rooms m) (int i + 1) of
        Inl e \<Rightarrow> Inl e
      | Inr room2 \<Rightarrow>
     (case create_corridor m (center room1) (center room2) g of
        Inl e \<Rightarrow> Inl e
      | Inr (m', g') \<Rightarrow> connect_rooms_loop is m' g')))"

definition connect_rooms :: "GameMap \<Rightarrow> rng \<Rightarrow> py_error + GameMap \<times> rng" where
  "connect_rooms m g =
     (if length (rooms m) < 2 then Inr (m, g)
      else connect_rooms_loop [0..<length (rooms m) - 1] m g)"

text \<open>
  \<open>self.rooms[1:]\<close> is the list without its first room. The stairs coordinate is recorded
  before the tile is written.
\<close>

definition place_stairs :: "GameMap \<Rightarrow> rng \<Rightarrow> py_error + GameMap \<times> rng" where
  "place_stairs m g =
     (if length (rooms m) < 2 then Inr (m, g)
      else
        case choice (drop 1 (rooms m)) g of
          Inl e \<Rightarrow> Inl e
        | Inr (stair_room, g1) \<Rightarrow>
            let floor_tiles = get_inner_area stair_room
            in if floor_tiles = [] then Inr (m, g1)
               else
                 (case choice floor_tiles g1 of
                    Inl e \<Rightarrow> Inl e
                  | Inr ((px, py), g2) \<Rightarrow>
                      (case tile_write (tiles m) px py STAIRS_DOWN of
                         Inl e \<Rightarrow> Inl e
                       | Inr ts \<Rightarrow>
                           Inr (m\<lparr>stairs_position := Some (px, py), tiles := ts\<rparr>, g2))))"

definition set_spawn_point :: "GameMap \<Rightarrow> rng \<Rightarrow> py_error + GameMap \<times> rng" where
  "set_spawn_point m g =
     (if rooms m = [] then Inr (m, g)
      else
        case py_index (rooms m) 0 of
          Inl e \<Rightarrow> Inl e
        | Inr spawn_room \<Rightarrow>
            let floor_tiles = get_inner_area spawn_room
            in if floor_tiles = [] then Inr (m, g)
               else
                 (case choice floor_tiles g of
                    Inl e \<Rightarrow> Inl e
                  | Inr (p, g') \<Rightarrow> Inr (m\<lparr>spawn_point := Some p\<rparr>, g')))"

definition generate_map :: "GameMap \<Rightarrow> rng \<Rightarrow> py_error + GameMap \<times> rng" where
  "generate_map m g =
     (case generate_rooms m g of
        Inl e \<Rightarrow> Inl e
      | Inr (m1, g1) \<Rightarrow>
     (case connect_rooms m1 g1 of
        Inl e \<Rightarrow> Inl e
      | Inr (m2, g2) \<Rightarrow>
     (case place_stairs m2 g2 of
        Inl e \<Rightarrow> Inl e
      | Inr (m3, g3) \<Rightarrow> set_spawn_point m3 g3)))"

subsection \<open>What generation maintains\<close>

text \<open>
  An accepted room lies inside the grid with a one-tile margin and is at least 5 by 5.
\<close>

definition room_in_grid :: "GameMap \<Rightarrow> Room \<Rightarrow> bool" where
  "room_in_grid m r \<longleftrightarrow>
     1 \<le> room_x r \<and> 1 \<le> room_y r \<and> 5 \<le> room_width r \<and> 5 \<le> room_height r \<and>
     room_x r + room_width r < width m \<and> room_y r + room_height r < height m"

text \<open>No two rooms at different places of the list intersect.\<close>

definition rooms_disjoint :: "Room list \<Rightarrow> bool" where
  "rooms_disjoint rs \<longleftrightarrow>
     (\<forall>i j. i < length rs \<and> j < length rs \<and> i \<noteq> j \<longrightarrow> \<not> intersects (rs ! i) (rs ! j))"

text \<open>
  The state between the phases of \<open>generate_map\<close>, before the stairs are placed: the grid
  has its shape, holds only walls and floors, every room lies inside it, no two rooms
  intersect, and no stairs are recorded.
\<close>

definition generation_invariant :: "GameMap \<Rightarrow> bool" where
  "generation_invariant m \<longleftrightarrow>
     wf_map m \<and> set (concat (tiles m)) \<subseteq> {WALL, FLOOR} \<and>
     list_all (room_in_grid m) (rooms m) \<and> rooms_disjoint (rooms m) \<and>
     stairs_position m = None"

section \<open>GameMap: line of sight\<close>

text \<open>
  The \<open>while\<close> loop of \<open>has_line_of_sight\<close>, entered at the point \<open>(px, py)\<close> with error
  term \<open>err\<close>. A loop that never ends is \<open>None\<close>; a raise is \<open>Some (Inl e)\<close>. Both
  error-accumulator tests read \<open>e2 = 2 * err\<close>, computed before either branch runs.
\<close>

partial_function (option) los_loop ::
  "GameMap \<Rightarrow> int \<Rightarrow> int \<Rightarrow> int \<Rightarrow> int \<Rightarrow> int \<Rightarrow> int \<Rightarrow> int \<Rightarrow> int \<Rightarrow> int
     \<Rightarrow> (py_error + bool) option" where
  "los_loop m x2 y2 dx dy sx sy err px py =
     (if px \<noteq> x2 \<or> py \<noteq> y2 then
        if \<not> is_valid_position m px py then Some (Inr False)
        else
          case tile_read (tiles m) px py of
            Inl e \<Rightarrow> Some (Inl e)
          | Inr t \<Rightarrow>
              if \<not> TileProperties_is_transparent t then Some (Inr False)
              else
                los_loop m x2 y2 dx dy sx sy
                  ((if 2 * err > - dy then err - dy else err) + (if 2 * err < dx then dx else 0))
                  (if 2 * err > - dy then px + sx else px)
                  (if 2 * err < dx then py + sy else py)
      else Some (Inr True))"

text \<open>\<open>max_range\<close> is an argument here; the source defaults it to 8.\<close>

definition has_line_of_sight ::
  "GameMap \<Rightarrow> int \<Rightarrow> int \<Rightarrow> int \<Rightarrow> int \<Rightarrow> int \<Rightarrow> (py_error + bool) option" where
  "has_line_of_sight m x1 y1 x2 y2 max_range =
     (if \<bar>x1 - x2\<bar> + \<bar>y1 - y2\<bar> > max_range then Some (Inr False)
      else
        los_loop m x2 y2 \<bar>x2 - x1\<bar> \<bar>y2 - y1\<bar>
          (if x1 < x2 then 1 else - 1) (if y1 < y2 then 1 else - 1)
          (\<bar>x2 - x1\<bar> - \<bar>y2 - y1\<bar>) x1 y1)"

subsection \<open>The Bresenham walk of the specification\<close>

text \<open>
  The specification describes the walk on its own: \<open>dx = |x2 - x1|\<close>, \<open>dy = |y2 - y1|\<close>,
  step signs from comparing start and end, \<open>err = dx - dy\<close>, and while the current point is
  not the endpoint one step of the error-accumulator rule
  \<open>if 2*err > -dy: err -= dy; x += sx\<close>, \<open>if 2*err < dx: err += dx; y += sy\<close>.
  A state of the walk is \<open>(x, y, err)\<close>.
\<close>

type_synonym walk_state = "int \<times> int \<times> int"

definition x_branch_fires :: "int \<Rightarrow> int \<Rightarrow> walk_state \<Rightarrow> bool" where
  "x_branch_fires dx dy s = (case s of (px, py, err) \<Rightarrow> 2 * err > - dy)"

definition y_branch_fires :: "int \<Rightarrow> int \<Rightarrow> walk_state \<Rightarrow> bool" where
  "y_branch_fires dx dy s = (case s of (px, py, err) \<Rightarrow> 2 * err < dx)"

definition bresenham_step :: "int \<Rightarrow> int \<Rightarrow> int \<Rightarrow> int \<Rightarrow> walk_state \<Rightarrow> walk_state" where
  "bresenham_step dx dy sx sy s =
     (case s of (px, py, err) \<Rightarrow>
        (if x_branch_fires dx dy s then px + sx else px,
         if y_branch_fires dx dy s then py + sy else py,
         (if x_branch_fires dx dy s then err - dy else err) +
         (if y_branch_fires dx dy s then dx else 0)))"

definition walk_point :: "walk_state \<Rightarrow> int \<times> int" where
  "walk_point s = (case s of (px, py, err) \<Rightarrow> (px, py))"

text \<open>The state after \<open>k\<close> steps from \<open>(x1, y1)\<close> towards \<open>(x2, y2)\<close>.\<close>

definition walk_state_at :: "int \<Rightarrow> int \<Rightarrow> int \<Rightarrow> int \<Rightarrow> nat \<Rightarrow> walk_state" where
  "walk_state_at x1 y1 x2 y2 k =
     (bresenham_step \<bar>x2 - x1\<bar> \<bar>y2 - y1\<bar>
        (if x1 < x2 then 1 else - 1) (if y1 < y2 then 1 else - 1) ^^ k)
       (x1, y1, \<bar>x2 - x1\<bar> - \<bar>y2 - y1\<bar>)"

text \<open>
  The points visited strictly before the endpoint: the walk from a state stops at the
  endpoint. The first argument bounds the number of steps.
\<close>

fun walk_from ::
  "nat \<Rightarrow> int \<Rightarrow> int \<Rightarrow> int \<Rightarrow> int \<Rightarrow> int \<Rightarrow> int \<Rightarrow> walk_state \<Rightarrow> (int \<times> int) list" where
  "walk_from 0 x2 y2 dx dy sx sy s = []"
| "walk_from (Suc n) x2 y2 dx dy sx sy s =
     (if walk_point s = (x2, y2) then []
      else walk_point s # walk_from n x2 y2 dx dy sx sy (bresenham_step dx dy sx sy s))"

text \<open>
  The Manhattan distance bounds the number of steps: every step before the endpoint
  moves at least one coordinate one tile closer.
\<close>

definition bresenham_walk :: "int \<Rightarrow> int \<Rightarrow> int \<Rightarrow> int \<Rightarrow> (int \<times> int) list" where
  "bresenham_walk x1 y1 x2 y2 =
     walk_from (nat (\<bar>x2 - x1\<bar> + \<bar>y2 - y1\<bar>)) x2 y2 \<bar>x2 - x1\<bar> \<bar>y2 - y1\<bar>
       (if x1 < x2 then 1 else - 1) (if y1 < y2 then 1 else - 1)
       (x1, y1, \<bar>x2 - x1\<bar> - \<bar>y2 - y1\<bar>)"

definition chebyshev :: "int \<times> int \<Rightarrow> int \<times> int \<Rightarrow> int" where
  "chebyshev p q = max \<bar>fst q - fst p\<bar> \<bar>snd q - snd p\<bar>"

text \<open>A point passes the test of the loop: within bounds, on a transparent tile.\<close>

definition sees_through :: "GameMap \<Rightarrow> int \<times> int \<Rightarrow> bool" where
  "sees_through m p =
     (case p of (px, py) \<Rightarrow>
        is_valid_position m px py \<and>
        TileProperties_is_transparent (tiles m ! nat py ! nat px))"

declare los_loop.simps [code]

section \<open>Dungeon\<close>

record Dungeon =
  map_width :: int
  map_height :: int
  floors :: "int \<rightharpoonup> GameMap"
  current_floor :: int
  max_floors :: int

definition Dungeon_init :: "int \<Rightarrow> int \<Rightarrow> Dungeon" where
  "Dungeon_init w h =
     \<lparr>map_width = w, map_height = h, floors = Map.empty, current_floor = 1, max_floors = 2\<rparr>"

definition go_down_stairs :: "Dungeon \<Rightarrow> bool \<times> Dungeon" where
  "go_down_stairs d =
     (if current_floor d \<ge> max_floors d then (False, d)
      else (True, d\<lparr>current_floor := current_floor d + 1\<rparr>))"

definition go_up_stairs :: "Dungeon \<Rightarrow> bool \<times> Dungeon" where
  "go_up_stairs d =
     (if current_floor d \<le> 1 then (False, d)
      else (True, d\<lparr>current_floor := current_floor d - 1\<rparr>))"

section \<open>Agents and the occupancy index\<close>

text \<open>
  An agent is any Python object. The index compares agents with \<open>==\<close> and \<open>in\<close>, which
  for plain objects is identity, so an agent is a handle and the objects live in a store
  \<open>heap\<close>. The two attributes the program probes with \<open>hasattr\<close>/\<open>getattr\<close> are
  \<open>position\<close> (\<open>None\<close> or a coordinate pair) and \<open>symbol\<close> (a string); either may be
  absent. The dictionary \<open>self.agents\<close> keeps insertion order, which \<open>remove_agent\<close> scans:
  it is an association list whose new keys go to the end.
\<close>

type_synonym agent = nat

datatype 'a attr = Absent | Present 'a

record agent_obj =
  position :: "(int \<times> int) option attr"
  symbol :: "string attr"

type_synonym heap = "agent \<Rightarrow> agent_obj"

type_synonym occupancy = "((int \<times> int) \<times> agent list) list"

record AgentManager =
  game_map :: GameMap
  agents :: occupancy

definition AgentManager_init :: "GameMap \<Rightarrow> AgentManager" where
  "AgentManager_init m = \<lparr>AgentManager.game_map = m, agents = []\<rparr>"

text \<open>
  \<open>if pos not in self.agents: self.agents[pos] = []\<close> followed by
  \<open>self.agents[pos].append(agent)\<close>.
\<close>

definition list_append_at :: "(int \<times> int) \<Rightarrow> agent \<Rightarrow> occupancy \<Rightarrow> occupancy" where
  "list_append_at pos a ags =
     AList.map_entry pos (\<lambda>l. l @ [a])
       (if map_of ags pos = None then AList.update pos [] ags else ags)"

text \<open>
  \<open>self.agents[pos].remove(agent)\<close> followed by
  \<open>if not self.agents[pos]: del self.agents[pos]\<close>.
\<close>

definition list_remove_at :: "(int \<times> int) \<Rightarrow> agent \<Rightarrow> occupancy \<Rightarrow> occupancy" where
  "list_remove_at pos a ags =
     (let ags' = AList.map_entry pos (remove1 a) ags
      in if map_of ags' pos = Some [] then AList.delete pos ags' else ags')"

text \<open>\<open>if hasattr(agent, 'position'): agent.position = pos\<close>.\<close>

definition set_position :: "heap \<Rightarrow> agent \<Rightarrow> (int \<times> int) \<Rightarrow> heap" where
  "set_position hp a pos =
     (case position (hp a) of
        Absent \<Rightarrow> hp
      | Present _ \<Rightarrow> hp(a := (hp a)\<lparr>position := Present (Some pos)\<rparr>))"

definition place_agent ::
  "AgentManager \<Rightarrow> heap \<Rightarrow> agent \<Rightarrow> int \<Rightarrow> int \<Rightarrow> py_error + bool \<times> AgentManager \<times> heap" where
  "place_agent am hp a px py =
     (case is_walkable (AgentManager.game_map am) px py of
        Inl e \<Rightarrow> Inl e
      | Inr ok \<Rightarrow>
          if \<not> ok then Inr (False, am, hp)
          else Inr (True, am\<lparr>agents := list_append_at (px, py) a (agents am)\<rparr>,
                    set_position hp a (px, py)))"

definition remove_agent :: "AgentManager \<Rightarrow> agent \<Rightarrow> bool \<times> AgentManager" where
  "remove_agent am a =
     (case find (\<lambda>(pos, agent_list). a \<in> set agent_list) (agents am) of
        None \<Rightarrow> (False, am)
      | Some (pos, agent_list) \<Rightarrow> (True, am\<lparr>agents := list_remove_at pos a (agents am)\<rparr>))"

definition remove_from_old_position :: "occupancy \<Rightarrow> heap \<Rightarrow> agent \<Rightarrow> occupancy" where
  \<comment> \<open>the block \<open># Remove from old position\<close> of \<open>move_agent\<close>;
      \<open>getattr(agent, 'position', None)\<close> is falsy when absent or \<open>None\<close>\<close>
  "remove_from_old_position ags hp a =
     (case (case position (hp a) of Absent \<Rightarrow> None | Present p \<Rightarrow> p) of
        None \<Rightarrow> ags
      | Some old_pos \<Rightarrow>
          (case map_of ags old_pos of
             None \<Rightarrow> ags
           | Some agent_list \<Rightarrow>
               if a \<in> set agent_list then list_remove_at old_pos a ags else ags))"

definition move_agent ::
  "AgentManager \<Rightarrow> heap \<Rightarrow> agent \<Rightarrow> int \<Rightarrow> int \<Rightarrow> py_error + bool \<times> AgentManager \<times> heap" where
  "move_agent am hp a new_x new_y =
     (case is_walkable (AgentManager.game_map am) new_x new_y of
        Inl e \<Rightarrow> Inl e
      | Inr ok \<Rightarrow>
          if \<not> ok then Inr (False, am, hp)
          else Inr (True,
                    am\<lparr>agents := list_append_at (new_x, new_y) a
                                    (remove_from_old_position (agents am) hp a)\<rparr>,
                    set_position hp a (new_x, new_y)))"

definition get_agents_at :: "AgentManager \<Rightarrow> int \<Rightarrow> int \<Rightarrow> agent list" where
  "get_agents_at am px py =
     (case map_of (agents am) (px, py) of None \<Rightarrow> [] | Some agent_list \<Rightarrow> agent_list)"

text \<open>
  A sequence of calls on one index. A call that raises ends the sequence, as the
  exception would.
\<close>

datatype call = Place agent int int | Remove agent | Move agent int int

fun do_call :: "AgentManager \<Rightarrow> heap \<Rightarrow> call \<Rightarrow> py_error + bool \<times> AgentManager \<times> heap" where
  "do_call am hp (Place a px py) = place_agent am hp a px py"
| "do_call am hp (Remove a) = (case remove_agent am a of (ok, am') \<Rightarrow> Inr (ok, am', hp))"
| "do_call am hp (Move a px py) = move_agent am hp a px py"

fun run_calls :: "AgentManager \<Rightarrow> heap \<Rightarrow> call list \<Rightarrow> py_error + AgentManager \<times> heap" where
  "run_calls am hp [] = Inr (am, hp)"
| "run_calls am hp (c # cs) =
     (case do_call am hp c of
        Inl e \<Rightarrow> Inl e
      | Inr (ok, am', hp') \<Rightarrow> run_calls am' hp' cs)"

text \<open>Keys are unique (it is a dictionary) and no key maps to an empty list.\<close>

definition occupancy_ok :: "occupancy \<Rightarrow> bool" where
  "occupancy_ok ags \<longleftrightarrow> distinct (map fst ags) \<and> list_all (\<lambda>(pos, agent_list). agent_list \<noteq> []) ags"

section \<open>MapRenderer\<close>

record MapRenderer =
  game_map :: GameMap
  agent_manager :: AgentManager

text \<open>
  The viewport of \<open>render_map\<close>: \<open>(start_x, start_y, end_x, end_y)\<close>. An argument left at
  its default is \<open>None\<close>; the viewport size then defaults to the map's, and the viewport is
  centred only when both centre coordinates are given. \<open>//\<close> is floor division.
\<close>

definition viewport_bounds ::
  "MapRenderer \<Rightarrow> int option \<Rightarrow> int option \<Rightarrow> int option \<Rightarrow> int option
     \<Rightarrow> int \<times> int \<times> int \<times> int" where
  "viewport_bounds r viewport_width viewport_height center_x center_y =
     (let m = MapRenderer.game_map r;
          vw = (case viewport_width of None \<Rightarrow> width m | Some w \<Rightarrow> w);
          vh = (case viewport_height of None \<Rightarrow> height m | Some h \<Rightarrow> h)
      in case (center_x, center_y) of
           (Some cx, Some cy) \<Rightarrow>
             (let start_x = max 0 (cx - vw div 2);
                  start_y = max 0 (cy - vh div 2)
              in (start_x, start_y, min (width m) (start_x + vw), min (height m) (start_y + vh)))
         | _ \<Rightarrow> (0, 0, min (width m) vw, min (height m) vh))"

text \<open>The tile branch of the inner loop body: the tile's symbol, or a blank.\<close>

definition tile_cell :: "MapRenderer \<Rightarrow> int \<Rightarrow> int \<Rightarrow> py_error + string" where
  "tile_cell r px py =
     (case get_tile (MapRenderer.game_map r) px py of
        Inl e \<Rightarrow> Inl e
      | Inr None \<Rightarrow> Inr '' ''
      | Inr (Some t) \<Rightarrow> Inr (TileProperties_get_symbol t))"

text \<open>
  One pass of the inner loop: what is appended to \<open>line\<close>. Only the first agent of the
  tile's list is asked for a symbol.
\<close>

definition render_cell :: "MapRenderer \<Rightarrow> heap \<Rightarrow> int \<Rightarrow> int \<Rightarrow> py_error + string" where
  "render_cell r hp px py =
     (case get_agents_at (agent_manager r) px py of
        [] \<Rightarrow> tile_cell r px py
      | a # _ \<Rightarrow>
          (case symbol (hp a) of
             Present s \<Rightarrow> Inr s
           | Absent \<Rightarrow> tile_cell r px py))"

fun render_line ::
  "MapRenderer \<Rightarrow> heap \<Rightarrow> int \<Rightarrow> int list \<Rightarrow> string \<Rightarrow> py_error + string" where
  "render_line r hp py [] line = Inr line"
| "render_line r hp py (px # xs) line =
     (case render_cell r hp px py of
        Inl e \<Rightarrow> Inl e
      | Inr s \<Rightarrow> render_line r hp py xs (line @ s))"

fun render_rows ::
  "MapRenderer \<Rightarrow> heap \<Rightarrow> int list \<Rightarrow> int list \<Rightarrow> string list \<Rightarrow> py_error + string list" where
  "render_rows r hp xs [] rendered_lines = Inr rendered_lines"
| "render_rows r hp xs (py # ys) rendered_lines =
     (case render_line r hp py xs [] of
        Inl e \<Rightarrow> Inl e
      | Inr line \<Rightarrow> render_rows r hp xs ys (rendered_lines @ [line]))"

definition render_map ::
  "MapRenderer \<Rightarrow> heap \<Rightarrow> int option \<Rightarrow> int option \<Rightarrow> int option \<Rightarrow> int option
     \<Rightarrow> py_error + string list" where
  "render_map r hp viewport_width viewport_height center_x center_y =
     (case viewport_bounds r viewport_width viewport_height center_x center_y of
        (start_x, start_y, end_x, end_y) \<Rightarrow>
          render_rows r hp (py_range start_x end_x) (py_range start_y end_y) [])"

text \<open>Every agent stored in the index that has a symbol has a one-character symbol.\<close>

definition single_char_symbols :: "AgentManager \<Rightarrow> heap \<Rightarrow> bool" where
  "single_char_symbols am hp \<longleftrightarrow>
     list_all (\<lambda>(pos, agent_list).
        list_all (\<lambda>a. case symbol (hp a) of Absent \<Rightarrow> True | Present s \<Rightarrow> length s = 1)
          agent_list) (agents am)"

section \<open>Example inputs\<close>

text \<open>A 5 by 3 grid: one row of three floor tiles inside a wall border.\<close>

definition corridor_map :: GameMap where
  "corridor_map =
     \<lparr>width = 5, height = 3, floor_number = 1,
      tiles = [[WALL, WALL, WALL, WALL, WALL],
               [WALL, FLOOR, FLOOR, FLOOR, WALL],
               [WALL, WALL, WALL, WALL, WALL]],
      rooms = [], stairs_position = None, spawn_point = None\<rparr>"

text \<open>
  Agents as the tests build them (\<open>position = None\<close>, a one-character \<open>symbol\<close>), and
  agents with neither attribute.
\<close>

definition heap_tracked :: heap where
  "heap_tracked = (\<lambda>a. \<lparr>position = Present None, symbol = Present ''@''\<rparr>)"

definition heap_bare :: heap where
  "heap_bare = (\<lambda>a. \<lparr>position = Absent, symbol = Absent\<rparr>)"

text \<open>A renderer over that grid with agents 4 and 5 stacked on the tile (2, 1).\<close>

definition corridor_renderer :: MapRenderer where
  "corridor_renderer =
     \<lparr>MapRenderer.game_map = corridor_map,
      agent_manager = \<lparr>AgentManager.game_map = corridor_map, agents = [((2, 1), [4, 5])]\<rparr>\<rparr>"

text \<open>
  The grid that \<open>generate_map\<close> builds from a new 16 by 8 grid when the draws are
  0, 0, 0, 0, 0, 0, 0, 7, 0 and then 0 for ever: two rooms, a corridor, the stairs in the
  second room.
\<close>

definition two_room_map :: GameMap where
  "two_room_map =
     \<lparr>width = 16, height = 8, floor_number = 1,
      tiles =
        [[WALL, WALL, WALL, WALL, WALL, WALL, WALL, WALL, WALL, WALL,
          WALL, WALL, WALL, WALL, WALL, WALL],
         [WALL, WALL, WALL, WALL, WALL, WALL, WALL, WALL, WALL, WALL,
          WALL, WALL, WALL, WALL, WALL, WALL],
         [WALL, WALL, FLOOR, FLOOR, FLOOR, WALL, WALL, WALL, WALL,
          STAIRS_DOWN, FLOOR, FLOOR, WALL, WALL, WALL, WALL],
         [WALL, WALL, FLOOR, FLOOR, FLOOR, FLOOR, FLOOR, FLOOR, FLOOR,
          FLOOR, FLOOR, FLOOR, WALL, WALL, WALL, WALL],
         [WALL, WALL, FLOOR, FLOOR, FLOOR, WALL, WALL, WALL, WALL, FLOOR,
          FLOOR, FLOOR, WALL, WALL, WALL, WALL],
         [WALL, WALL, WALL, WALL, WALL, WALL, WALL, WALL, WALL, WALL,
          WALL, WALL, WALL, WALL, WALL, WALL],
         [WALL, WALL, WALL, WALL, WALL, WALL, WALL, WALL, WALL, WALL,
          WALL, WALL, WALL, WALL, WALL, WALL],
         [WALL, WALL, WALL, WALL, WALL, WALL, WALL, WALL, WALL, WALL,
          WALL, WALL, WALL, WALL, WALL, WALL]],
      rooms =
        [\<lparr>room_x = 1, room_y = 1, room_width = 5, room_height = 5\<rparr>,
         \<lparr>room_x = 8, room_y = 1, room_width = 5, room_height = 5\<rparr>],
      stairs_position = Some (9, 2), spawn_point = Some (2, 2)\<rparr>"

section \<open>Basic facts about the grid\<close>

lemma py_index_in_range: "0 \<le> i \<Longrightarrow> i < int (length xs) \<Longrightarrow> py_index xs i = Inr (xs ! nat i)"
  by (simp add: py_index_def)

lemma tile_read_wf:
  assumes "wf_map m" "is_valid_position m px py"
  shows "tile_read (tiles m) px py = Inr (tiles m ! nat py ! nat px)"
proof -
  from assms have y: "0 \<le> py" "py < int (length (tiles m))"
    by (auto simp: wf_map_def is_valid_position_def)
  then have "tiles m ! nat py \<in> set (tiles m)" by simp
  with assms have x: "0 \<le> px" "px < int (length (tiles m ! nat py))"
    by (auto simp: wf_map_def is_valid_position_def list_all_iff)
  show ?thesis by (simp add: tile_read_def py_index_in_range y x)
qed

lemma is_walkable_wf:
  "wf_map m \<Longrightarrow>
   is_walkable m px py =
     Inr (is_valid_position m px py \<and> TileProperties_is_walkable (tiles m ! nat py ! nat px))"
  by (simp add: is_walkable_def tile_read_wf)

lemma wf_corridor_map: "wf_map corridor_map"
  by (simp add: wf_map_def corridor_map_def)

lemma get_tile_wf:
  "wf_map m \<Longrightarrow>
   get_tile m px py =
     Inr (if is_valid_position m px py then Some (tiles m ! nat py ! nat px) else None)"
  by (simp add: get_tile_def tile_read_wf)

section \<open>Generation\<close>

lemma py_store_in_range:
  "0 \<le> i \<Longrightarrow> i < int (length xs) \<Longrightarrow> py_store xs i v = Inr (xs[nat i := v])"
  by (simp add: py_store_def)

lemma tile_write_wf:
  assumes "wf_map m" "is_valid_position m px py"
  shows "tile_write (tiles m) px py v =
           Inr ((tiles m)[nat py := (tiles m ! nat py)[nat px := v]])"
proof -
  from assms have y: "0 \<le> py" "py < int (length (tiles m))"
    by (auto simp: wf_map_def is_valid_position_def)
  then have "tiles m ! nat py \<in> set (tiles m)" by simp
  with assms have x: "0 \<le> px" "px < int (length (tiles m ! nat py))"
    by (auto simp: wf_map_def is_valid_position_def list_all_iff)
  show ?thesis by (simp add: tile_write_def py_index_in_range py_store_in_range y x)
qed

lemma wf_map_tile_update:
  assumes "wf_map m"
  shows "wf_map (m\<lparr>tiles := (tiles m)[j := (tiles m ! j)[i := v]]\<rparr>)"
proof -
  have "int (length row) = max 0 (width m)"
    if "row \<in> set ((tiles m)[j := (tiles m ! j)[i := v]])" for row
  proof -
    have "row = (tiles m ! j)[i := v] \<and> j < length (tiles m) \<or> row \<in> set (tiles m)"
    proof (cases "j < length (tiles m)")
      case True
      with that set_update_subset_insert [of "tiles m" j "(tiles m ! j)[i := v]"]
      show ?thesis by auto
    next
      case False
      with that show ?thesis by (simp add: list_update_beyond)
    qed
    with assms show ?thesis by (auto simp: wf_map_def list_all_iff)
  qed
  with assms show ?thesis by (simp add: wf_map_def list_all_iff)
qed

lemma set_concat_tile_update:
  "set (concat (ts[j := (ts ! j)[i := v]])) \<subseteq> insert v (set (concat ts))"
proof (cases "j < length ts")
  case True
  have "set ((ts ! j)[i := v]) \<subseteq> insert v (set (ts ! j))" by (rule set_update_subset_insert)
  moreover from nth_mem [OF True] have "set (ts ! j) \<subseteq> set (concat ts)" by auto
  moreover have "set (ts[j := (ts ! j)[i := v]]) \<subseteq> insert ((ts ! j)[i := v]) (set ts)"
    by (rule set_update_subset_insert)
  ultimately show ?thesis by fastforce
next
  case False
  then show ?thesis by (auto simp: list_update_beyond)
qed

lemma write_all_ok:
  assumes "\<forall>p\<in>set ps. is_valid_position m (fst p) (snd p)"
  shows "wf_map (m\<lparr>tiles := ts\<rparr>) \<Longrightarrow>
         \<exists>ts'. write_all ts ps v = Inr ts' \<and> wf_map (m\<lparr>tiles := ts'\<rparr>) \<and>
               set (concat ts') \<subseteq> insert v (set (concat ts))"
  using assms
proof (induction ps arbitrary: ts)
  case Nil
  then show ?case by auto
next
  case (Cons p ps)
  obtain px py where p: "p = (px, py)" by (cases p)
  let ?ts = "ts[nat py := (ts ! nat py)[nat px := v]]"
  from Cons.prems p have v: "is_valid_position (m\<lparr>tiles := ts\<rparr>) px py"
    by (simp add: is_valid_position_def)
  from tile_write_wf [OF Cons.prems(1) v, of v] have w: "tile_write ts px py v = Inr ?ts" by simp
  from wf_map_tile_update [OF Cons.prems(1), of "nat py" "nat px" v]
  have "wf_map (m\<lparr>tiles := ?ts\<rparr>)" by simp
  from Cons.IH [OF this] Cons.prems(2) obtain ts' where
    ts': "write_all ?ts ps v = Inr ts'" "wf_map (m\<lparr>tiles := ts'\<rparr>)"
      "set (concat ts') \<subseteq> insert v (set (concat ?ts))"
    by auto
  from ts'(3) set_concat_tile_update [of ts "nat py" "nat px" v]
  have "set (concat ts') \<subseteq> insert v (set (concat ts))" by blast
  with ts' w p show ?case by simp
qed

lemma write_all_map:
  assumes "wf_map m" "\<forall>p\<in>set ps. is_valid_position m (fst p) (snd p)"
  shows "\<exists>ts'. write_all (tiles m) ps v = Inr ts' \<and> wf_map (m\<lparr>tiles := ts'\<rparr>) \<and>
               set (concat ts') \<subseteq> insert v (set (concat (tiles m)))"
  using write_all_ok [OF assms(2), of "tiles m" v] assms(1) by simp

lemma set_py_range: "set (py_range a b) = {a..<b}"
  by (auto simp: py_range_def)

lemma set_get_inner_area:
  "set (get_inner_area r) =
     {room_x r + 1..<room_x r + room_width r - 1} \<times> {room_y r + 1..<room_y r + room_height r - 1}"
  by (auto simp: get_inner_area_def set_py_range)

lemma inner_area_valid:
  assumes "room_in_grid m r" "p \<in> set (get_inner_area r)"
  shows "is_valid_position m (fst p) (snd p)"
  using assms by (auto simp: set_get_inner_area room_in_grid_def is_valid_position_def)

lemma carve_room_ok:
  assumes "wf_map m" "room_in_grid m r"
  shows "\<exists>ts. carve_room m r = Inr (m\<lparr>tiles := ts\<rparr>) \<and> wf_map (m\<lparr>tiles := ts\<rparr>) \<and>
              set (concat ts) \<subseteq> insert FLOOR (set (concat (tiles m)))"
proof -
  have "\<forall>p\<in>set (get_inner_area r). is_valid_position m (fst p) (snd p)"
    using inner_area_valid [OF assms(2)] by blast
  from write_all_map [OF assms(1) this, of FLOOR] show ?thesis
    by (auto simp: carve_room_def get_inner_area_def)
qed

lemma create_horizontal_tunnel_ok:
  assumes "wf_map m"
  shows "\<exists>ts. create_horizontal_tunnel m x_start x_end py = Inr (m\<lparr>tiles := ts\<rparr>) \<and>
              wf_map (m\<lparr>tiles := ts\<rparr>) \<and>
              set (concat ts) \<subseteq> insert FLOOR (set (concat (tiles m)))"
proof -
  let ?ps = "filter (\<lambda>(px, py). 0 < px \<and> px < width m - 1 \<and> 0 < py \<and> py < height m - 1)
                (map (\<lambda>px. (px, py)) (py_range (min x_start x_end) (max x_start x_end + 1)))"
  have "\<forall>p\<in>set ?ps. is_valid_position m (fst p) (snd p)"
    by (auto simp: is_valid_position_def)
  from write_all_map [OF assms this, of FLOOR] show ?thesis
    by (auto simp: create_horizontal_tunnel_def)
qed

lemma create_vertical_tunnel_ok:
  assumes "wf_map m"
  shows "\<exists>ts. create_vertical_tunnel m y_start y_end px = Inr (m\<lparr>tiles := ts\<rparr>) \<and>
              wf_map (m\<lparr>tiles := ts\<rparr>) \<and>
              set (concat ts) \<subseteq> insert FLOOR (set (concat (tiles m)))"
proof -
  let ?ps = "filter (\<lambda>(px, py). 0 < px \<and> px < width m - 1 \<and> 0 < py \<and> py < height m - 1)
                (map (\<lambda>py. (px, py)) (py_range (min y_start y_end) (max y_start y_end + 1)))"
  have "\<forall>p\<in>set ?ps. is_valid_position m (fst p) (snd p)"
    by (auto simp: is_valid_position_def)
  from write_all_map [OF assms this, of FLOOR] show ?thesis
    by (auto simp: create_vertical_tunnel_def)
qed


lemma randint_range:
  assumes "a \<le> b"
  shows "\<exists>v g'. randint a b g = Inr (v, g') \<and> a \<le> v \<and> v \<le> b"
proof -
  obtain r g' where d: "draw g = (r, g')" by (cases "draw g")
  from assms pos_mod_bound [of "b - a + 1" "int r"] have "int r mod (b - a + 1) \<le> b - a"
    by linarith
  moreover from assms have "0 \<le> int r mod (b - a + 1)" by simp
  ultimately show ?thesis using assms d by (simp add: randint_def)
qed

lemma choice_nth:
  assumes "xs \<noteq> []"
  shows "\<exists>k g'. choice xs g = Inr (xs ! k, g') \<and> k < length xs"
proof -
  obtain r g' where d: "draw g = (r, g')" by (cases "draw g")
  from assms have "r mod length xs < length xs" by simp
  with assms d show ?thesis by (auto simp: choice_def)
qed

lemma intersects_sym: "intersects a b = intersects b a"
  by (auto simp: intersects_def)

lemma rooms_disjoint_snoc:
  assumes "rooms_disjoint rs" "\<not> list_ex (intersects r) rs"
  shows "rooms_disjoint (rs @ [r])"
  unfolding rooms_disjoint_def
proof (intro allI impI)
  fix i j
  assume ij: "i < length (rs @ [r]) \<and> j < length (rs @ [r]) \<and> i \<noteq> j"
  from assms(2) have new: "\<not> intersects r (rs ! k)" "\<not> intersects (rs ! k) r" if "k < length rs" for k
    using that by (auto simp: list_ex_iff intersects_sym [of _ r])
  consider "i < length rs" "j < length rs" | "i < length rs" "j = length rs"
    | "i = length rs" "j < length rs"
    using ij by (cases "i < length rs"; cases "j < length rs") auto
  then show "\<not> intersects ((rs @ [r]) ! i) ((rs @ [r]) ! j)"
  proof cases
    case 1
    with assms(1) ij show ?thesis by (simp add: rooms_disjoint_def nth_append)
  next
    case 2
    with new(2) show ?thesis by (simp add: nth_append)
  next
    case 3
    with new(1) show ?thesis by (simp add: nth_append)
  qed
qed

lemma room_in_grid_tiles [simp]: "room_in_grid (m\<lparr>tiles := ts\<rparr>) = room_in_grid m"
  by (simp add: room_in_grid_def fun_eq_iff)

lemma room_in_grid_rooms [simp]: "room_in_grid (m\<lparr>rooms := rs\<rparr>) = room_in_grid m"
  by (simp add: room_in_grid_def fun_eq_iff)

lemma generation_invariant_tiles:
  assumes "generation_invariant m" "wf_map (m\<lparr>tiles := ts\<rparr>)"
    and "set (concat ts) \<subseteq> insert FLOOR (set (concat (tiles m)))"
  shows "generation_invariant (m\<lparr>tiles := ts\<rparr>)"
  using assms by (auto simp: generation_invariant_def)

lemma create_corridor_ok:
  assumes "generation_invariant m"
  shows "\<exists>ts g'. create_corridor m start end g = Inr (m\<lparr>tiles := ts\<rparr>, g') \<and>
                 generation_invariant (m\<lparr>tiles := ts\<rparr>)"
proof -
  obtain start_x start_y end_x end_y where se: "start = (start_x, start_y)" "end = (end_x, end_y)"
    by (cases start; cases "end") auto
  obtain b g' where r: "random_below_half g = (b, g')" by (cases "random_below_half g")
  from assms have wf: "wf_map m" by (simp add: generation_invariant_def)
  show ?thesis
  proof (cases b)
    case True
    from create_horizontal_tunnel_ok [OF wf, of start_x end_x start_y] obtain ts1 where
      h: "create_horizontal_tunnel m start_x end_x start_y = Inr (m\<lparr>tiles := ts1\<rparr>)"
      and i1: "wf_map (m\<lparr>tiles := ts1\<rparr>)"
        "set (concat ts1) \<subseteq> insert FLOOR (set (concat (tiles m)))" by blast
    from generation_invariant_tiles [OF assms i1] have g1: "generation_invariant (m\<lparr>tiles := ts1\<rparr>)" .
    from create_vertical_tunnel_ok [OF i1(1), of start_y end_y end_x] obtain ts2 where
      v: "create_vertical_tunnel (m\<lparr>tiles := ts1\<rparr>) start_y end_y end_x = Inr (m\<lparr>tiles := ts2\<rparr>)"
      and i2: "wf_map (m\<lparr>tiles := ts2\<rparr>)"
        "set (concat ts2) \<subseteq> insert FLOOR (set (concat ts1))" by auto
    from generation_invariant_tiles [OF g1, of ts2] i2
    have "generation_invariant (m\<lparr>tiles := ts2\<rparr>)" by simp
    with True r h v se show ?thesis
      by (intro exI [of _ ts2] exI [of _ g']) (simp add: create_corridor_def)
  next
    case False
    from create_vertical_tunnel_ok [OF wf, of start_y end_y start_x] obtain ts1 where
      v: "create_vertical_tunnel m start_y end_y start_x = Inr (m\<lparr>tiles := ts1\<rparr>)"
      and i1: "wf_map (m\<lparr>tiles := ts1\<rparr>)"
        "set (concat ts1) \<subseteq> insert FLOOR (set (concat (tiles m)))" by blast
    from generation_invariant_tiles [OF assms i1] have g1: "generation_invariant (m\<lparr>tiles := ts1\<rparr>)" .
    from create_horizontal_tunnel_ok [OF i1(1), of start_x end_x end_y] obtain ts2 where
      h: "create_horizontal_tunnel (m\<lparr>tiles := ts1\<rparr>) start_x end_x end_y = Inr (m\<lparr>tiles := ts2\<rparr>)"
      and i2: "wf_map (m\<lparr>tiles := ts2\<rparr>)"
        "set (concat ts2) \<subseteq> insert FLOOR (set (concat ts1))" by auto
    from generation_invariant_tiles [OF g1, of ts2] i2
    have "generation_invariant (m\<lparr>tiles := ts2\<rparr>)" by simp
    with False r h v se show ?thesis
      by (intro exI [of _ ts2] exI [of _ g']) (simp add: create_corridor_def)
  qed
qed

lemma room_attempt_ok:
  assumes "generation_invariant m"
  shows "\<exists>m' g'. room_attempt m g = Inr (m', g') \<and> generation_invariant m' \<and>
                 width m' = width m \<and> height m' = height m"
proof -
  from randint_range [of 5 15 g] obtain rw g1 where
    rw: "randint 5 15 g = Inr (rw, g1)" "5 \<le> rw" by auto
  from randint_range [of 5 15 g1] obtain rh g2 where
    rh: "randint 5 15 g1 = Inr (rh, g2)" "5 \<le> rh" by auto
  show ?thesis
  proof (cases "width m - rw - 1 \<le> 1 \<or> height m - rh - 1 \<le> 1")
    case True
    with rw rh assms show ?thesis by (auto simp: room_attempt_def)
  next
    case False
    then have fit: "1 \<le> width m - rw - 1" "1 \<le> height m - rh - 1" by simp_all
    from randint_range [OF fit(1), of g2] obtain rx g3 where
      rx: "randint 1 (width m - rw - 1) g2 = Inr (rx, g3)" "1 \<le> rx" "rx \<le> width m - rw - 1"
      by auto
    from randint_range [OF fit(2), of g3] obtain ry g4 where
      ry: "randint 1 (height m - rh - 1) g3 = Inr (ry, g4)" "1 \<le> ry" "ry \<le> height m - rh - 1"
      by auto
    let ?room = "\<lparr>room_x = rx, room_y = ry, room_width = rw, room_height = rh\<rparr>"
    have att: "room_attempt m g =
        (if list_ex (intersects ?room) (rooms m) then Inr (m, g4)
         else case carve_room m ?room of
                Inl e \<Rightarrow> Inl e
              | Inr m' \<Rightarrow> Inr (m'\<lparr>rooms := rooms m' @ [?room]\<rparr>, g4))"
      using False rw(1) rh(1) rx(1) ry(1) by (simp add: room_attempt_def Let_def)
    show ?thesis
    proof (cases "list_ex (intersects ?room) (rooms m)")
      case True
      with att assms show ?thesis by simp
    next
      case no: False
      from rw rh rx ry have in_grid: "room_in_grid m ?room" by (simp add: room_in_grid_def)
      from assms have wf: "wf_map m" by (simp add: generation_invariant_def)
      from carve_room_ok [OF wf in_grid] obtain ts where
        c: "carve_room m ?room = Inr (m\<lparr>tiles := ts\<rparr>)"
        and i: "wf_map (m\<lparr>tiles := ts\<rparr>)"
          "set (concat ts) \<subseteq> insert FLOOR (set (concat (tiles m)))" by blast
      from generation_invariant_tiles [OF assms i]
      have inv: "generation_invariant (m\<lparr>tiles := ts\<rparr>)" .
      from assms have "rooms_disjoint (rooms m)" by (simp add: generation_invariant_def)
      from rooms_disjoint_snoc [OF this no] inv in_grid
      have "generation_invariant (m\<lparr>tiles := ts, rooms := rooms m @ [?room]\<rparr>)"
        by (simp add: generation_invariant_def wf_map_def room_in_grid_def)
      with att no c show ?thesis by simp
    qed
  qed
qed

lemma generate_rooms_loop_ok:
  "generation_invariant m \<Longrightarrow>
   \<exists>m' g'. generate_rooms_loop n m g = Inr (m', g') \<and> generation_invariant m' \<and>
           width m' = width m \<and> height m' = height m"
proof (induction n arbitrary: m g)
  case 0
  then show ?case by simp
next
  case (Suc n)
  from room_attempt_ok [OF Suc.prems, of g] obtain m1 g1 where
    a: "room_attempt m g = Inr (m1, g1)" "generation_invariant m1"
      "width m1 = width m" "height m1 = height m" by blast
  from Suc.IH [OF a(2), of g1] a show ?case by auto
qed

lemma generate_rooms_ok:
  assumes "generation_invariant m"
  shows "\<exists>m' g'. generate_rooms m g = Inr (m', g') \<and> generation_invariant m' \<and>
                 width m' = width m \<and> height m' = height m"
proof -
  from randint_range [of 6 12 g] obtain num_rooms g1 where
    "randint 6 12 g = Inr (num_rooms, g1)" by auto
  with generate_rooms_loop_ok [OF assms, of "nat num_rooms" g1] show ?thesis
    by (simp add: generate_rooms_def)
qed

lemma connect_rooms_loop_ok:
  "generation_invariant m \<Longrightarrow> \<forall>i\<in>set is. Suc i < length (rooms m) \<Longrightarrow>
   \<exists>ts g'. connect_rooms_loop is m g = Inr (m\<lparr>tiles := ts\<rparr>, g') \<and>
           generation_invariant (m\<lparr>tiles := ts\<rparr>)"
proof (induction "is" arbitrary: m g)
  case Nil
  have "m = m\<lparr>tiles := tiles m\<rparr>" by simp
  with Nil show ?case by (metis connect_rooms_loop.simps(1))
next
  case (Cons i "is")
  from Cons.prems(2) have i: "Suc i < length (rooms m)" by simp
  then have r1: "py_index (rooms m) (int i) = Inr (rooms m ! i)"
    and r2: "py_index (rooms m) (int i + 1) = Inr (rooms m ! Suc i)"
    by (simp_all add: py_index_def nat_add_distrib)
  from create_corridor_ok [OF Cons.prems(1), of "center (rooms m ! i)" "center (rooms m ! Suc i)" g]
  obtain ts1 g1 where
    c: "create_corridor m (center (rooms m ! i)) (center (rooms m ! Suc i)) g =
          Inr (m\<lparr>tiles := ts1\<rparr>, g1)"
    and inv: "generation_invariant (m\<lparr>tiles := ts1\<rparr>)" by blast
  from Cons.prems(2) have "\<forall>i\<in>set is. Suc i < length (rooms (m\<lparr>tiles := ts1\<rparr>))" by simp
  from Cons.IH [OF inv this, of g1] obtain ts2 g2 where
    "connect_rooms_loop is (m\<lparr>tiles := ts1\<rparr>) g1 = Inr (m\<lparr>tiles := ts2\<rparr>, g2)"
    "generation_invariant (m\<lparr>tiles := ts2\<rparr>)" by auto
  with r1 r2 c show ?case
    by (intro exI [of _ ts2] exI [of _ g2]) simp
qed

lemma connect_rooms_ok:
  assumes "generation_invariant m"
  shows "\<exists>ts g'. connect_rooms m g = Inr (m\<lparr>tiles := ts\<rparr>, g') \<and>
                 generation_invariant (m\<lparr>tiles := ts\<rparr>)"
proof (cases "length (rooms m) < 2")
  case True
  have "m = m\<lparr>tiles := tiles m\<rparr>" by simp
  with True assms show ?thesis by (metis connect_rooms_def)
next
  case False
  have "\<forall>i\<in>set [0..<length (rooms m) - 1]. Suc i < length (rooms m)" by auto
  from connect_rooms_loop_ok [OF assms this, of g] False show ?thesis
    by (simp add: connect_rooms_def)
qed


lemma tile_in_grid:
  assumes "wf_map m" "is_valid_position m px py"
  shows "nat py < length (tiles m)" "nat px < length (tiles m ! nat py)"
    "tiles m ! nat py ! nat px \<in> set (concat (tiles m))"
proof -
  from assms show y: "nat py < length (tiles m)"
    by (auto simp: wf_map_def is_valid_position_def)
  then have "tiles m ! nat py \<in> set (tiles m)" by simp
  with assms show x: "nat px < length (tiles m ! nat py)"
    by (auto simp: wf_map_def is_valid_position_def list_all_iff)
  from nth_mem [OF y] nth_mem [OF x]
  show "tiles m ! nat py ! nat px \<in> set (concat (tiles m))" by auto
qed

lemma inner_area_nonempty: "room_in_grid m r \<Longrightarrow> get_inner_area r \<noteq> []"
proof -
  assume "room_in_grid m r"
  then have "(room_x r + 1, room_y r + 1) \<in> set (get_inner_area r)"
    by (simp add: set_get_inner_area room_in_grid_def)
  then show ?thesis by auto
qed

lemma filter_absent: "v \<notin> set xs \<Longrightarrow> filter (\<lambda>t. t = v) xs = []"
  by (induction xs) auto

lemma filter_row_update:
  assumes "v \<notin> set row" "i < length row"
  shows "filter (\<lambda>t. t = v) (row[i := v]) = [v]"
proof -
  from assms(1) have "v \<notin> set (take i row)" "v \<notin> set (drop (Suc i) row)"
    by (auto dest: in_set_takeD in_set_dropD)
  then show ?thesis
    by (simp add: upd_conv_take_nth_drop [OF assms(2)] filter_absent)
qed

lemma filter_grid_update:
  assumes "v \<notin> set (concat ts)" "j < length ts" "i < length (ts ! j)"
  shows "filter (\<lambda>t. t = v) (concat (ts[j := (ts ! j)[i := v]])) = [v]"
proof -
  from assms(1) have "v \<notin> set (concat (take j ts))" "v \<notin> set (concat (drop (Suc j) ts))"
    by (auto dest: in_set_takeD in_set_dropD)
  moreover from assms(1) nth_mem [OF assms(2)] have "v \<notin> set (ts ! j)" by auto
  ultimately show ?thesis
    by (simp add: upd_conv_take_nth_drop [OF assms(2)] filter_absent
          filter_row_update [OF _ assms(3)])
qed

lemma place_stairs_ok:
  assumes "generation_invariant m"
  shows "\<exists>m' g'. place_stairs m g = Inr (m', g') \<and> rooms m' = rooms m \<and> wf_map m' \<and>
           width m' = width m \<and> height m' = height m \<and>
           (2 \<le> length (rooms m) \<longrightarrow>
              (\<exists>sx sy i. stairs_position m' = Some (sx, sy) \<and> is_valid_position m' sx sy \<and>
                 1 \<le> i \<and> i < length (rooms m) \<and> (sx, sy) \<in> set (get_inner_area (rooms m ! i)) \<and>
                 filter (\<lambda>t. t = STAIRS_DOWN) (concat (tiles m')) = [STAIRS_DOWN] \<and>
                 (\<forall>px py. is_valid_position m' px py \<longrightarrow>
                    (get_tile m' px py = Inr (Some STAIRS_DOWN)) = (px = sx \<and> py = sy))))"
proof (cases "length (rooms m) < 2")
  case True
  with assms show ?thesis by (simp add: place_stairs_def generation_invariant_def)
next
  case False
  from assms have wf: "wf_map m" and plain: "set (concat (tiles m)) \<subseteq> {WALL, FLOOR}"
    and fits: "list_all (room_in_grid m) (rooms m)"
    by (simp_all add: generation_invariant_def)
  from False have "drop 1 (rooms m) \<noteq> []" by simp
  from choice_nth [OF this, of g] obtain k g1 where
    c1: "choice (drop 1 (rooms m)) g = Inr (drop 1 (rooms m) ! k, g1)"
    and k: "k < length (drop 1 (rooms m))" by blast
  from k have i: "1 \<le> Suc k" "Suc k < length (rooms m)"
    and room: "drop 1 (rooms m) ! k = rooms m ! Suc k"
    by simp_all
  from fits i have in_grid: "room_in_grid m (rooms m ! Suc k)" by (simp add: list_all_iff)
  from choice_nth [OF inner_area_nonempty [OF in_grid], of g1] obtain k2 g2 where
    c2: "choice (get_inner_area (rooms m ! Suc k)) g1 = Inr (get_inner_area (rooms m ! Suc k) ! k2, g2)"
    and k2: "k2 < length (get_inner_area (rooms m ! Suc k))" by blast
  obtain sx sy where p: "get_inner_area (rooms m ! Suc k) ! k2 = (sx, sy)"
    by (cases "get_inner_area (rooms m ! Suc k) ! k2")
  from k2 p have mem: "(sx, sy) \<in> set (get_inner_area (rooms m ! Suc k))"
    by (metis nth_mem)
  from inner_area_valid [OF in_grid mem] have v: "is_valid_position m sx sy" by simp
  let ?ts = "(tiles m)[nat sy := (tiles m ! nat sy)[nat sx := STAIRS_DOWN]]"
  let ?m = "m\<lparr>stairs_position := Some (sx, sy), tiles := ?ts\<rparr>"
  have res: "place_stairs m g = Inr (?m, g2)"
    using False c1 c2 p inner_area_nonempty [OF in_grid]
    by (simp add: place_stairs_def room Let_def tile_write_wf [OF wf v])
  from wf_map_tile_update [OF wf, of "nat sy" "nat sx" STAIRS_DOWN]
  have wf': "wf_map ?m" by (simp add: wf_map_def)
  have v': "is_valid_position ?m = is_valid_position m"
    by (simp add: is_valid_position_def fun_eq_iff)
  have uniq: "(get_tile ?m px py = Inr (Some STAIRS_DOWN)) = (px = sx \<and> py = sy)"
    if pv: "is_valid_position ?m px py" for px py
  proof -
    from pv v' have pv': "is_valid_position m px py" by simp
    from tile_in_grid [OF wf pv'] plain have old: "tiles m ! nat py ! nat px \<noteq> STAIRS_DOWN"
      by auto
    from pv' v have nn: "0 \<le> px" "0 \<le> py" "0 \<le> sx" "0 \<le> sy"
      by (simp_all add: is_valid_position_def)
    have "?ts ! nat py ! nat px =
        (if px = sx \<and> py = sy then STAIRS_DOWN else tiles m ! nat py ! nat px)"
      using tile_in_grid(1,2) [OF wf pv'] tile_in_grid(1,2) [OF wf v] nn
      by (auto simp: nth_list_update)
    with old pv show ?thesis by (auto simp: get_tile_wf [OF wf'])
  qed
  from plain have "STAIRS_DOWN \<notin> set (concat (tiles m))" by auto
  from filter_grid_update [OF this tile_in_grid(1,2) [OF wf v]]
  have one: "filter (\<lambda>t. t = STAIRS_DOWN) (concat (tiles ?m)) = [STAIRS_DOWN]" by simp
  from res wf' v v' uniq i mem False one show ?thesis
    by (intro exI [of _ ?m] exI [of _ g2]) auto
qed

lemma set_spawn_point_ok:
  "\<exists>m' g'. set_spawn_point m g = Inr (m', g') \<and> tiles m' = tiles m \<and> rooms m' = rooms m \<and>
           stairs_position m' = stairs_position m \<and> width m' = width m \<and> height m' = height m"
proof (cases "rooms m = [] \<or> get_inner_area (rooms m ! 0) = []")
  case True
  then show ?thesis
    by (cases "rooms m = []") (simp_all add: set_spawn_point_def py_index_def)
next
  case False
  from choice_nth [of "get_inner_area (rooms m ! 0)" g] False obtain k g' where
    "choice (get_inner_area (rooms m ! 0)) g = Inr (get_inner_area (rooms m ! 0) ! k, g')"
    by blast
  with False show ?thesis by (simp add: set_spawn_point_def py_index_def)
qed

lemma generation_invariant_init: "generation_invariant (GameMap_init w h f)"
  by (auto simp: generation_invariant_def GameMap_init_def wf_map_def rooms_disjoint_def
        list_all_iff)

lemma generate_map_ok:
  "\<exists>m g'. generate_map (GameMap_init w h f) g = Inr (m, g') \<and>
     width m = w \<and> height m = h \<and> wf_map m \<and>
     list_all (room_in_grid m) (rooms m) \<and> rooms_disjoint (rooms m) \<and>
     (2 \<le> length (rooms m) \<longrightarrow>
        (\<exists>sx sy i. stairs_position m = Some (sx, sy) \<and> is_valid_position m sx sy \<and>
           1 \<le> i \<and> i < length (rooms m) \<and> (sx, sy) \<in> set (get_inner_area (rooms m ! i)) \<and>
           filter (\<lambda>t. t = STAIRS_DOWN) (concat (tiles m)) = [STAIRS_DOWN] \<and>
           (\<forall>px py. is_valid_position m px py \<longrightarrow>
              (get_tile m px py = Inr (Some STAIRS_DOWN)) = (px = sx \<and> py = sy))))"
proof -
  from generate_rooms_ok [OF generation_invariant_init, of w h f g] obtain m1 g1 where
    s1: "generate_rooms (GameMap_init w h f) g = Inr (m1, g1)" and i1: "generation_invariant m1"
    and d1: "width m1 = w" "height m1 = h"
    by (auto simp: GameMap_init_def)
  from connect_rooms_ok [OF i1, of g1] obtain ts g2 where
    s2: "connect_rooms m1 g1 = Inr (m1\<lparr>tiles := ts\<rparr>, g2)"
    and i2: "generation_invariant (m1\<lparr>tiles := ts\<rparr>)" by blast
  let ?m2 = "m1\<lparr>tiles := ts\<rparr>"
  from place_stairs_ok [OF i2, of g2] obtain m3 g3 where
    s3: "place_stairs ?m2 g2 = Inr (m3, g3)" and r3: "rooms m3 = rooms ?m2" and wf3: "wf_map m3"
    and d3: "width m3 = width ?m2" "height m3 = height ?m2"
    and st3: "2 \<le> length (rooms ?m2) \<longrightarrow>
        (\<exists>sx sy i. stairs_position m3 = Some (sx, sy) \<and> is_valid_position m3 sx sy \<and>
           1 \<le> i \<and> i < length (rooms ?m2) \<and> (sx, sy) \<in> set (get_inner_area (rooms ?m2 ! i)) \<and>
           filter (\<lambda>t. t = STAIRS_DOWN) (concat (tiles m3)) = [STAIRS_DOWN] \<and>
           (\<forall>px py. is_valid_position m3 px py \<longrightarrow>
              (get_tile m3 px py = Inr (Some STAIRS_DOWN)) = (px = sx \<and> py = sy)))"
    by blast
  from set_spawn_point_ok [of m3 g3] obtain m4 g4 where
    s4: "set_spawn_point m3 g3 = Inr (m4, g4)" and t4: "tiles m4 = tiles m3"
    and r4: "rooms m4 = rooms m3" and p4: "stairs_position m4 = stairs_position m3"
    and d4: "width m4 = width m3" "height m4 = height m3" by blast
  have same: "is_valid_position m4 = is_valid_position m3" "get_tile m4 = get_tile m3"
    "room_in_grid m4 = room_in_grid m3"
    by (simp_all add: is_valid_position_def get_tile_def room_in_grid_def fun_eq_iff t4 d4)
  have "generate_map (GameMap_init w h f) g = Inr (m4, g4)"
    by (simp add: generate_map_def s1 s2 s3 s4)
  moreover from wf3 have "wf_map m4" by (simp add: wf_map_def t4 d4)
  moreover from i2 have "list_all (room_in_grid m4) (rooms m4)" "rooms_disjoint (rooms m4)"
    by (simp_all add: generation_invariant_def r4 r3 room_in_grid_def list_all_iff d4 d3)
  moreover from st3 have "2 \<le> length (rooms m4) \<longrightarrow>
        (\<exists>sx sy i. stairs_position m4 = Some (sx, sy) \<and> is_valid_position m4 sx sy \<and>
           1 \<le> i \<and> i < length (rooms m4) \<and> (sx, sy) \<in> set (get_inner_area (rooms m4 ! i)) \<and>
           filter (\<lambda>t. t = STAIRS_DOWN) (concat (tiles m4)) = [STAIRS_DOWN] \<and>
           (\<forall>px py. is_valid_position m4 px py \<longrightarrow>
              (get_tile m4 px py = Inr (Some STAIRS_DOWN)) = (px = sx \<and> py = sy)))"
    by (simp add: same r4 r3 p4 t4)
  ultimately show ?thesis using d1 d3 d4 by (intro exI [of _ m4] exI [of _ g4]) simp
qed


text \<open>
  C3. A single call of \<open>generate_map\<close> on a newly constructed grid returns, for every
  outcome of the random draws, and no two rooms at different places of the final room
  list intersect (strict overlap on both axes, so rooms that touch do not intersect).
\<close>

theorem generated_rooms_do_not_intersect:
  "\<exists>m g'. generate_map (GameMap_init w h f) g = Inr (m, g') \<and>
     (\<forall>i j. i < length (rooms m) \<and> j < length (rooms m) \<and> i \<noteq> j \<longrightarrow>
        \<not> intersects (rooms m ! i) (rooms m ! j))"
  using generate_map_ok [of w h f g] unfolding rooms_disjoint_def by blast

lemma generate_two_room_map:
  "generate_map (GameMap_init 16 8 1) [0, 0, 0, 0, 0, 0, 0, 7, 0] = Inr (two_room_map, [])"
  by code_simp

theorem generated_rooms_do_not_intersect_witness:
  "generate_map (GameMap_init 16 8 1) [0, 0, 0, 0, 0, 0, 0, 7, 0] = Inr (two_room_map, []) \<and>
   length (rooms two_room_map) = 2 \<and>
   \<not> intersects (rooms two_room_map ! 0) (rooms two_room_map ! 1) \<and>
   \<not> intersects (rooms two_room_map ! 1) (rooms two_room_map ! 0)"
  using generated_rooms_do_not_intersect [of 16 8 1 "[0, 0, 0, 0, 0, 0, 0, 7, 0]"]
  by (simp add: generate_two_room_map) (simp add: two_room_map_def intersects_def)

text \<open>
  C1. A single call of \<open>generate_map\<close> on a newly constructed grid returns, for every
  outcome of the random draws. When the final room list has at least 2 rooms, a stairs
  coordinate is recorded, it is a position of the grid, the tile there is \<open>STAIRS_DOWN\<close>
  and no other tile is (the grid holds \<open>STAIRS_DOWN\<close> exactly once), and the coordinate
  lies in the interior of a room of the list other than \<open>rooms[0]\<close>.
\<close>

theorem stairs_unique_in_later_room:
  "\<exists>m g'. generate_map (GameMap_init w h f) g = Inr (m, g') \<and>
     (2 \<le> length (rooms m) \<longrightarrow>
        (\<exists>sx sy i. stairs_position m = Some (sx, sy) \<and> is_valid_position m sx sy \<and>
           get_tile m sx sy = Inr (Some STAIRS_DOWN) \<and>
           (\<forall>px py. get_tile m px py = Inr (Some STAIRS_DOWN) \<longrightarrow> px = sx \<and> py = sy) \<and>
           filter (\<lambda>t. t = STAIRS_DOWN) (concat (tiles m)) = [STAIRS_DOWN] \<and>
           1 \<le> i \<and> i < length (rooms m) \<and> (sx, sy) \<in> set (get_inner_area (rooms m ! i))))"
proof -
  from generate_map_ok [of w h f g] obtain m g' where
    g: "generate_map (GameMap_init w h f) g = Inr (m, g')" and wf: "wf_map m"
    and st: "2 \<le> length (rooms m) \<longrightarrow>
        (\<exists>sx sy i. stairs_position m = Some (sx, sy) \<and> is_valid_position m sx sy \<and>
           1 \<le> i \<and> i < length (rooms m) \<and> (sx, sy) \<in> set (get_inner_area (rooms m ! i)) \<and>
           filter (\<lambda>t. t = STAIRS_DOWN) (concat (tiles m)) = [STAIRS_DOWN] \<and>
           (\<forall>px py. is_valid_position m px py \<longrightarrow>
              (get_tile m px py = Inr (Some STAIRS_DOWN)) = (px = sx \<and> py = sy)))"
    by blast
  have inval: "get_tile m px py = Inr (Some STAIRS_DOWN) \<Longrightarrow> is_valid_position m px py" for px py
    by (auto simp: get_tile_wf [OF wf] split: if_splits)
  have "\<exists>sx sy i. stairs_position m = Some (sx, sy) \<and> is_valid_position m sx sy \<and>
           get_tile m sx sy = Inr (Some STAIRS_DOWN) \<and>
           (\<forall>px py. get_tile m px py = Inr (Some STAIRS_DOWN) \<longrightarrow> px = sx \<and> py = sy) \<and>
           filter (\<lambda>t. t = STAIRS_DOWN) (concat (tiles m)) = [STAIRS_DOWN] \<and>
           1 \<le> i \<and> i < length (rooms m) \<and> (sx, sy) \<in> set (get_inner_area (rooms m ! i))"
    if "2 \<le> length (rooms m)"
  proof -
    from st that obtain sx sy i where
      s: "stairs_position m = Some (sx, sy)" "is_valid_position m sx sy"
        "1 \<le> i" "i < length (rooms m)" "(sx, sy) \<in> set (get_inner_area (rooms m ! i))"
        "filter (\<lambda>t. t = STAIRS_DOWN) (concat (tiles m)) = [STAIRS_DOWN]"
      and u: "\<And>px py. is_valid_position m px py \<Longrightarrow>
              (get_tile m px py = Inr (Some STAIRS_DOWN)) = (px = sx \<and> py = sy)"
      by blast
    from u [OF s(2)] have "get_tile m sx sy = Inr (Some STAIRS_DOWN)" by simp
    moreover have "px = sx \<and> py = sy" if "get_tile m px py = Inr (Some STAIRS_DOWN)" for px py
      using u [OF inval [OF that]] that by simp
    ultimately show ?thesis using s by blast
  qed
  with g show ?thesis by blast
qed

theorem stairs_unique_in_later_room_witness:
  "generate_map (GameMap_init 16 8 1) [0, 0, 0, 0, 0, 0, 0, 7, 0] = Inr (two_room_map, []) \<and>
   2 \<le> length (rooms two_room_map) \<and>
   stairs_position two_room_map = Some (9, 2) \<and>
   get_tile two_room_map 9 2 = Inr (Some STAIRS_DOWN) \<and>
   filter (\<lambda>t. t = STAIRS_DOWN) (concat (tiles two_room_map)) = [STAIRS_DOWN] \<and>
   (9, 2) \<in> set (get_inner_area (rooms two_room_map ! 1))"
proof -
  have len: "2 \<le> length (rooms two_room_map)" by code_simp
  have pos: "stairs_position two_room_map = Some (9, 2)" by code_simp
  have inner: "(9, 2) \<in> set (get_inner_area (rooms two_room_map ! 1))" by code_simp
  from stairs_unique_in_later_room [of 16 8 1 "[0, 0, 0, 0, 0, 0, 0, 7, 0]"]
  obtain m g' where
    g: "generate_map (GameMap_init 16 8 1) [0, 0, 0, 0, 0, 0, 0, 7, 0] = Inr (m, g')"
    and st: "2 \<le> length (rooms m) \<longrightarrow>
        (\<exists>sx sy i. stairs_position m = Some (sx, sy) \<and> is_valid_position m sx sy \<and>
           get_tile m sx sy = Inr (Some STAIRS_DOWN) \<and>
           (\<forall>px py. get_tile m px py = Inr (Some STAIRS_DOWN) \<longrightarrow> px = sx \<and> py = sy) \<and>
           filter (\<lambda>t. t = STAIRS_DOWN) (concat (tiles m)) = [STAIRS_DOWN] \<and>
           1 \<le> i \<and> i < length (rooms m) \<and> (sx, sy) \<in> set (get_inner_area (rooms m ! i)))"
    by (elim exE conjE)
  from g have m: "m = two_room_map" unfolding generate_two_room_map by simp
  from st [unfolded m, rule_format, OF len] obtain sx sy where
    s: "stairs_position two_room_map = Some (sx, sy)"
      "get_tile two_room_map sx sy = Inr (Some STAIRS_DOWN)"
      "filter (\<lambda>t. t = STAIRS_DOWN) (concat (tiles two_room_map)) = [STAIRS_DOWN]"
    by (elim exE conjE)
  from s(1) pos have "sx = 9" "sy = 2" by simp_all
  with s generate_two_room_map len pos inner show ?thesis by (intro conjI) simp_all
qed

section \<open>Line of sight\<close>

lemma a_branch_fires:
  assumes "0 \<le> dx" "0 \<le> dy" "dx \<noteq> 0 \<or> dy \<noteq> 0"
  shows "x_branch_fires dx dy s \<or> y_branch_fires dx dy s"
  using assms by (cases s) (auto simp: x_branch_fires_def y_branch_fires_def)

lemma x_major_state:
  fixes dx dy sx sy px py :: int
  assumes "0 \<le> dy" "dy \<le> dx" "0 < dx"
  shows "\<exists>j. (bresenham_step dx dy sx sy ^^ k) (px, py, dx - dy) =
               (px + sx * int k, py + sy * j, dx - dy + j * dx - int k * dy) \<and>
             0 \<le> j \<and>
             dy - 2 * dx < 2 * (j * dx - int k * dy) \<and>
             2 * (j * dx - int k * dy) < dx"
proof (induction k)
  case 0
  from assms show ?case by (intro exI [of _ 0]) simp
next
  case (Suc k)
  then obtain j where
    st: "(bresenham_step dx dy sx sy ^^ k) (px, py, dx - dy) =
           (px + sx * int k, py + sy * j, dx - dy + j * dx - int k * dy)"
    and j0: "0 \<le> j"
    and lo: "dy - 2 * dx < 2 * (j * dx - int k * dy)"
    and hi: "2 * (j * dx - int k * dy) < dx"
    by blast
  let ?s = "(px + sx * int k, py + sy * j, dx - dy + j * dx - int k * dy)"
  from lo have xf: "x_branch_fires dx dy ?s" by (simp add: x_branch_fires_def)
  show ?case
  proof (cases "y_branch_fires dx dy ?s")
    case True
    then have t: "2 * (dx - dy + j * dx - int k * dy) < dx" by (simp add: y_branch_fires_def)
    have "(bresenham_step dx dy sx sy ^^ Suc k) (px, py, dx - dy) =
            (px + sx * int (Suc k), py + sy * (j + 1),
             dx - dy + (j + 1) * dx - int (Suc k) * dy)"
      using xf True by (simp add: st bresenham_step_def algebra_simps)
    moreover have "dy - 2 * dx < 2 * ((j + 1) * dx - int (Suc k) * dy)"
      using lo assms by (simp add: algebra_simps)
    moreover have "2 * ((j + 1) * dx - int (Suc k) * dy) < dx"
      using t by (simp add: algebra_simps)
    ultimately show ?thesis using j0 by (intro exI [of _ "j + 1"]) simp
  next
    case False
    then have f: "\<not> 2 * (dx - dy + j * dx - int k * dy) < dx" by (simp add: y_branch_fires_def)
    have "(bresenham_step dx dy sx sy ^^ Suc k) (px, py, dx - dy) =
            (px + sx * int (Suc k), py + sy * j, dx - dy + j * dx - int (Suc k) * dy)"
      using xf False by (simp add: st bresenham_step_def algebra_simps)
    moreover have "dy - 2 * dx < 2 * (j * dx - int (Suc k) * dy)"
      using f hi assms by (simp add: algebra_simps)
    moreover have "2 * (j * dx - int (Suc k) * dy) < dx"
      using hi assms by (simp add: algebra_simps)
    ultimately show ?thesis using j0 by (intro exI [of _ j]) simp
  qed
qed

lemma y_major_state:
  fixes dx dy sx sy px py :: int
  assumes "0 \<le> dx" "dx < dy"
  shows "\<exists>j. (bresenham_step dx dy sx sy ^^ k) (px, py, dx - dy) =
               (px + sx * j, py + sy * int k, dx - dy + int k * dx - j * dy) \<and>
             0 \<le> j \<and>
             - dy < 2 * (int k * dx - j * dy) \<and>
             2 * (int k * dx - j * dy) < 2 * dy - dx"
proof (induction k)
  case 0
  from assms show ?case by (intro exI [of _ 0]) simp
next
  case (Suc k)
  then obtain j where
    st: "(bresenham_step dx dy sx sy ^^ k) (px, py, dx - dy) =
           (px + sx * j, py + sy * int k, dx - dy + int k * dx - j * dy)"
    and j0: "0 \<le> j"
    and lo: "- dy < 2 * (int k * dx - j * dy)"
    and hi: "2 * (int k * dx - j * dy) < 2 * dy - dx"
    by blast
  let ?s = "(px + sx * j, py + sy * int k, dx - dy + int k * dx - j * dy)"
  from hi have yf: "y_branch_fires dx dy ?s" by (simp add: y_branch_fires_def)
  show ?case
  proof (cases "x_branch_fires dx dy ?s")
    case True
    then have t: "2 * (dx - dy + int k * dx - j * dy) > - dy" by (simp add: x_branch_fires_def)
    have "(bresenham_step dx dy sx sy ^^ Suc k) (px, py, dx - dy) =
            (px + sx * (j + 1), py + sy * int (Suc k),
             dx - dy + int (Suc k) * dx - (j + 1) * dy)"
      using yf True by (simp add: st bresenham_step_def algebra_simps)
    moreover have "- dy < 2 * (int (Suc k) * dx - (j + 1) * dy)"
      using t by (simp add: algebra_simps)
    moreover have "2 * (int (Suc k) * dx - (j + 1) * dy) < 2 * dy - dx"
      using hi assms by (simp add: algebra_simps)
    ultimately show ?thesis using j0 by (intro exI [of _ "j + 1"]) simp
  next
    case False
    then have f: "\<not> 2 * (dx - dy + int k * dx - j * dy) > - dy" by (simp add: x_branch_fires_def)
    have "(bresenham_step dx dy sx sy ^^ Suc k) (px, py, dx - dy) =
            (px + sx * j, py + sy * int (Suc k), dx - dy + int (Suc k) * dx - j * dy)"
      using yf False by (simp add: st bresenham_step_def algebra_simps)
    moreover have "- dy < 2 * (int (Suc k) * dx - j * dy)"
      using lo assms by (simp add: algebra_simps)
    moreover have "2 * (int (Suc k) * dx - j * dy) < 2 * dy - dx"
      using f assms by (simp add: algebra_simps)
    ultimately show ?thesis using j0 by (intro exI [of _ j]) simp
  qed
qed


lemma x_major_remaining:
  fixes dx dy j k :: int
  assumes "0 \<le> dy" "dy \<le> dx" "0 \<le> k" "k \<le> dx"
    and lo: "dy - 2 * dx < 2 * (j * dx - k * dy)"
    and hi: "2 * (j * dx - k * dy) < dx"
  shows "j \<le> dy \<and> dy - j \<le> dx - k"
proof -
  have "j \<le> dy"
  proof (rule ccontr)
    assume "\<not> j \<le> dy"
    then have "dy + 1 \<le> j" by simp
    with assms have "(dy + 1) * dx \<le> j * dx" by (intro mult_right_mono) simp_all
    moreover from assms have "k * dy \<le> dx * dy" by (intro mult_right_mono) simp_all
    ultimately show False using hi assms by (simp add: algebra_simps)
  qed
  moreover have "dy - j \<le> dx - k"
  proof (rule ccontr)
    assume "\<not> dy - j \<le> dx - k"
    then have "j \<le> dy - dx + k - 1" by simp
    with assms have "j * dx \<le> (dy - dx + k - 1) * dx" by (intro mult_right_mono) simp_all
    moreover from assms have "0 \<le> (dx - k) * (dx - dy)" by (intro mult_nonneg_nonneg) simp_all
    ultimately show False using lo assms by (simp add: algebra_simps)
  qed
  ultimately show ?thesis ..
qed

lemma y_major_remaining:
  fixes dx dy j k :: int
  assumes "0 \<le> dx" "dx < dy" "0 \<le> k" "k \<le> dy"
    and lo: "- dy < 2 * (k * dx - j * dy)"
    and hi: "2 * (k * dx - j * dy) < 2 * dy - dx"
  shows "j \<le> dx \<and> dx - j \<le> dy - k"
proof -
  have "j \<le> dx"
  proof (rule ccontr)
    assume "\<not> j \<le> dx"
    then have "dx + 1 \<le> j" by simp
    with assms have "(dx + 1) * dy \<le> j * dy" by (intro mult_right_mono) simp_all
    moreover from assms have "k * dx \<le> dy * dx" by (intro mult_right_mono) simp_all
    ultimately show False using lo assms by (simp add: algebra_simps)
  qed
  moreover have "dx - j \<le> dy - k"
  proof (rule ccontr)
    assume "\<not> dx - j \<le> dy - k"
    then have "j \<le> dx - dy + k - 1" by simp
    with assms have "j * dy \<le> (dx - dy + k - 1) * dy" by (intro mult_right_mono) simp_all
    moreover from assms have "0 \<le> (dy - k) * (dy - dx)" by (intro mult_nonneg_nonneg) simp_all
    ultimately show False using hi assms by (simp add: algebra_simps)
  qed
  ultimately show ?thesis ..
qed

lemma chebyshev_walk_state:
  assumes k: "int k \<le> max \<bar>x2 - x1\<bar> \<bar>y2 - y1\<bar>"
  shows "chebyshev (walk_point (walk_state_at x1 y1 x2 y2 k)) (x2, y2) =
           max \<bar>x2 - x1\<bar> \<bar>y2 - y1\<bar> - int k"
proof -
  define dx dy sx sy where "dx = \<bar>x2 - x1\<bar>" and "dy = \<bar>y2 - y1\<bar>"
    and "sx = (if x1 < x2 then 1 else - 1 :: int)" and "sy = (if y1 < y2 then 1 else - 1 :: int)"
  have x2: "x2 = x1 + sx * dx" and y2: "y2 = y1 + sy * dy"
    by (simp_all add: dx_def dy_def sx_def sy_def)
  have sx: "\<bar>sx\<bar> = 1" and sy: "\<bar>sy\<bar> = 1" by (simp_all add: sx_def sy_def)
  have st: "walk_state_at x1 y1 x2 y2 k = (bresenham_step dx dy sx sy ^^ k) (x1, y1, dx - dy)"
    by (simp add: walk_state_at_def dx_def dy_def sx_def sy_def)
  have nn: "0 \<le> dx" "0 \<le> dy" by (simp_all add: dx_def dy_def)
  from k have k': "int k \<le> max dx dy" by (simp add: dx_def dy_def)
  have rem: "\<bar>x2 - (x1 + sx * a)\<bar> = \<bar>dx - a\<bar>" "\<bar>y2 - (y1 + sy * b)\<bar> = \<bar>dy - b\<bar>" for a b
  proof -
    have "x2 - (x1 + sx * a) = sx * (dx - a)" by (subst x2) (simp add: algebra_simps)
    then show "\<bar>x2 - (x1 + sx * a)\<bar> = \<bar>dx - a\<bar>" by (simp only: abs_mult sx mult_1)
    have "y2 - (y1 + sy * b) = sy * (dy - b)" by (subst y2) (simp add: algebra_simps)
    then show "\<bar>y2 - (y1 + sy * b)\<bar> = \<bar>dy - b\<bar>" by (simp only: abs_mult sy mult_1)
  qed
  have "chebyshev (walk_point ((bresenham_step dx dy sx sy ^^ k) (x1, y1, dx - dy))) (x2, y2) =
          max dx dy - int k"
  proof (cases "dy \<le> dx")
    case True
    show ?thesis
    proof (cases "dx = 0")
      case True
      with \<open>dy \<le> dx\<close> nn k' have "dy = 0" "k = 0" by simp_all
      with True x2 y2 show ?thesis by (simp add: chebyshev_def walk_point_def)
    next
      case False
      with nn have "0 < dx" by simp
      from x_major_state [OF nn(2) True this, where sx = sx and sy = sy and k = k and px = x1 and py = y1]
      obtain j where
        j: "(bresenham_step dx dy sx sy ^^ k) (x1, y1, dx - dy) =
              (x1 + sx * int k, y1 + sy * j, dx - dy + j * dx - int k * dy)"
        and b: "dy - 2 * dx < 2 * (j * dx - int k * dy)" "2 * (j * dx - int k * dy) < dx"
        by blast
      from k' True have "int k \<le> dx" by simp
      from x_major_remaining [OF nn(2) True _ this b] have "j \<le> dy" "dy - j \<le> dx - int k"
        by simp_all
      moreover have "chebyshev (walk_point ((bresenham_step dx dy sx sy ^^ k) (x1, y1, dx - dy)))
          (x2, y2) = max \<bar>dx - int k\<bar> \<bar>dy - j\<bar>"
        unfolding j chebyshev_def walk_point_def
        by (simp only: prod.case fst_conv snd_conv rem)
      ultimately show ?thesis using True \<open>int k \<le> dx\<close> by simp
    qed
  next
    case False
    then have lt: "dx < dy" by simp
    from y_major_state [OF nn(1) lt, where sx = sx and sy = sy and k = k and px = x1 and py = y1]
    obtain j where
      j: "(bresenham_step dx dy sx sy ^^ k) (x1, y1, dx - dy) =
            (x1 + sx * j, y1 + sy * int k, dx - dy + int k * dx - j * dy)"
      and b: "- dy < 2 * (int k * dx - j * dy)" "2 * (int k * dx - j * dy) < 2 * dy - dx"
      by blast
    from k' lt have "int k \<le> dy" by simp
    from y_major_remaining [OF nn(1) lt _ this b] have "j \<le> dx" "dx - j \<le> dy - int k"
      by simp_all
    moreover have "chebyshev (walk_point ((bresenham_step dx dy sx sy ^^ k) (x1, y1, dx - dy)))
        (x2, y2) = max \<bar>dx - j\<bar> \<bar>dy - int k\<bar>"
      unfolding j chebyshev_def walk_point_def
      by (simp only: prod.case fst_conv snd_conv rem)
    ultimately show ?thesis using lt \<open>int k \<le> dy\<close> by simp
  qed
  then show ?thesis by (simp only: st dx_def dy_def)
qed

lemma chebyshev_zero: "chebyshev p q = 0 \<longleftrightarrow> p = q"
  by (cases p; cases q) (auto simp: chebyshev_def)

lemma walk_reaches_endpoint:
  "walk_point (walk_state_at x1 y1 x2 y2 (nat (max \<bar>x2 - x1\<bar> \<bar>y2 - y1\<bar>))) = (x2, y2)"
proof -
  have n: "0 \<le> max \<bar>x2 - x1\<bar> \<bar>y2 - y1\<bar>" by simp
  then have "int (nat (max \<bar>x2 - x1\<bar> \<bar>y2 - y1\<bar>)) \<le> max \<bar>x2 - x1\<bar> \<bar>y2 - y1\<bar>" by simp
  from chebyshev_walk_state [OF this]
  have "chebyshev (walk_point (walk_state_at x1 y1 x2 y2 (nat (max \<bar>x2 - x1\<bar> \<bar>y2 - y1\<bar>))))
          (x2, y2) = 0"
    using n by (simp only: int_nat_eq if_True diff_self)
  then show ?thesis by (simp only: chebyshev_zero)
qed

lemma walk_not_at_endpoint:
  assumes "int k < max \<bar>x2 - x1\<bar> \<bar>y2 - y1\<bar>"
  shows "walk_point (walk_state_at x1 y1 x2 y2 k) \<noteq> (x2, y2)"
proof
  assume "walk_point (walk_state_at x1 y1 x2 y2 k) = (x2, y2)"
  then have "chebyshev (walk_point (walk_state_at x1 y1 x2 y2 k)) (x2, y2) = 0"
    by (simp add: chebyshev_zero)
  moreover from assms have "int k \<le> max \<bar>x2 - x1\<bar> \<bar>y2 - y1\<bar>" by simp
  from chebyshev_walk_state [OF this]
  have "chebyshev (walk_point (walk_state_at x1 y1 x2 y2 k)) (x2, y2) =
          max \<bar>x2 - x1\<bar> \<bar>y2 - y1\<bar> - int k" .
  ultimately show False using assms by simp
qed


lemma los_loop_unfold:
  "los_loop m x2 y2 dx dy sx sy err px py =
     (if px = x2 \<and> py = y2 then Some (Inr True)
      else if \<not> is_valid_position m px py then Some (Inr False)
      else case tile_read (tiles m) px py of
             Inl e \<Rightarrow> Some (Inl e)
           | Inr t \<Rightarrow>
               if \<not> TileProperties_is_transparent t then Some (Inr False)
               else (case bresenham_step dx dy sx sy (px, py, err) of
                       (px', py', err') \<Rightarrow> los_loop m x2 y2 dx dy sx sy err' px' py'))"
  by (subst los_loop.simps)
     (auto simp: bresenham_step_def x_branch_fires_def y_branch_fires_def split: sum.splits)

lemma reach_after_step:
  assumes "\<exists>k\<le>Suc n. walk_point ((bresenham_step dx dy sx sy ^^ k) s) = (x2, y2)"
    and "walk_point s \<noteq> (x2, y2)"
  shows "\<exists>k\<le>n. walk_point ((bresenham_step dx dy sx sy ^^ k) (bresenham_step dx dy sx sy s)) = (x2, y2)"
proof -
  from assms(1) obtain k where
    k: "k \<le> Suc n" "walk_point ((bresenham_step dx dy sx sy ^^ k) s) = (x2, y2)" by blast
  with assms(2) obtain k' where "k = Suc k'" by (cases k) auto
  with k show ?thesis by (intro exI [of _ k']) (simp add: funpow_swap1)
qed

lemma los_loop_walk:
  assumes "wf_map m"
  shows "\<exists>k\<le>n. walk_point ((bresenham_step dx dy sx sy ^^ k) (px, py, err)) = (x2, y2) \<Longrightarrow>
         los_loop m x2 y2 dx dy sx sy err px py =
           Some (Inr (list_all (sees_through m) (walk_from n x2 y2 dx dy sx sy (px, py, err))))"
proof (induction n arbitrary: px py err)
  case 0
  then have "px = x2 \<and> py = y2" by (simp add: walk_point_def)
  then show ?case by (subst los_loop_unfold) simp
next
  case (Suc n)
  show ?case
  proof (cases "px = x2 \<and> py = y2")
    case True
    then show ?thesis by (subst los_loop_unfold) (simp add: walk_point_def)
  next
    case False
    then have ne: "walk_point (px, py, err) \<noteq> (x2, y2)" by (simp add: walk_point_def)
    obtain px' py' err' where step: "bresenham_step dx dy sx sy (px, py, err) = (px', py', err')"
      by (metis prod_cases3)
    from reach_after_step [OF Suc.prems ne]
    have "los_loop m x2 y2 dx dy sx sy err' px' py' =
            Some (Inr (list_all (sees_through m) (walk_from n x2 y2 dx dy sx sy (px', py', err'))))"
      unfolding step by (rule Suc.IH)
    moreover have "walk_from (Suc n) x2 y2 dx dy sx sy (px, py, err) =
        (px, py) # walk_from n x2 y2 dx dy sx sy (px', py', err')"
      using ne by (simp add: step) (simp add: walk_point_def)
    moreover have "los_loop m x2 y2 dx dy sx sy err px py =
        (if sees_through m (px, py) then los_loop m x2 y2 dx dy sx sy err' px' py'
         else Some (Inr False))"
      using False
      by (subst los_loop_unfold, cases "is_valid_position m px py")
         (auto simp: step sees_through_def tile_read_wf [OF assms])
    ultimately show ?thesis by simp
  qed
qed

lemma los_loop_returns:
  "\<exists>k\<le>n. walk_point ((bresenham_step dx dy sx sy ^^ k) (px, py, err)) = (x2, y2) \<Longrightarrow>
   \<exists>b. los_loop m x2 y2 dx dy sx sy err px py = Some b"
proof (induction n arbitrary: px py err)
  case 0
  then have "px = x2 \<and> py = y2" by (simp add: walk_point_def)
  then show ?case by (subst los_loop_unfold) simp
next
  case (Suc n)
  show ?case
  proof (cases "px = x2 \<and> py = y2")
    case True
    then show ?thesis by (subst los_loop_unfold) simp
  next
    case False
    then have ne: "walk_point (px, py, err) \<noteq> (x2, y2)" by (simp add: walk_point_def)
    obtain px' py' err' where step: "bresenham_step dx dy sx sy (px, py, err) = (px', py', err')"
      by (metis prod_cases3)
    from reach_after_step [OF Suc.prems ne]
    have "\<exists>b. los_loop m x2 y2 dx dy sx sy err' px' py' = Some b"
      unfolding step by (rule Suc.IH)
    then show ?thesis
      using False by (subst los_loop_unfold) (auto simp: step split: sum.splits)
  qed
qed

lemma walk_from_states:
  assumes "\<forall>i<N. walk_point ((bresenham_step dx dy sx sy ^^ i) s) \<noteq> (x2, y2)"
    and "walk_point ((bresenham_step dx dy sx sy ^^ N) s) = (x2, y2)"
    and "N \<le> n"
  shows "walk_from n x2 y2 dx dy sx sy s =
           map (\<lambda>i. walk_point ((bresenham_step dx dy sx sy ^^ i) s)) [0..<N]"
  using assms
proof (induction n arbitrary: s N)
  case 0
  then show ?case by simp
next
  case (Suc n)
  show ?case
  proof (cases N)
    case 0
    with Suc.prems show ?thesis by simp
  next
    case (Suc N')
    with Suc.prems(1) have ne: "walk_point s \<noteq> (x2, y2)" by fastforce
    have "walk_from n x2 y2 dx dy sx sy (bresenham_step dx dy sx sy s) =
            map (\<lambda>i. walk_point ((bresenham_step dx dy sx sy ^^ i) (bresenham_step dx dy sx sy s)))
              [0..<N']"
    proof (rule Suc.IH)
      show "\<forall>i<N'. walk_point ((bresenham_step dx dy sx sy ^^ i) (bresenham_step dx dy sx sy s))
              \<noteq> (x2, y2)"
      proof (intro allI impI)
        fix i assume "i < N'"
        with Suc.prems(1) Suc
        have "walk_point ((bresenham_step dx dy sx sy ^^ Suc i) s) \<noteq> (x2, y2)" by blast
        then show "walk_point ((bresenham_step dx dy sx sy ^^ i) (bresenham_step dx dy sx sy s))
              \<noteq> (x2, y2)"
          by (simp add: funpow_swap1)
      qed
      show "walk_point ((bresenham_step dx dy sx sy ^^ N') (bresenham_step dx dy sx sy s)) = (x2, y2)"
        using Suc.prems(2) Suc by (simp add: funpow_swap1)
      show "N' \<le> n" using Suc.prems(3) Suc by simp
    qed
    moreover have "[0..<N] = 0 # map Suc [0..<N']"
      by (simp add: Suc upt_conv_Cons map_Suc_upt del: upt_Suc)
    ultimately show ?thesis using ne
      by (simp add: funpow_swap1 comp_def)
  qed
qed

lemma bresenham_walk_states:
  "bresenham_walk x1 y1 x2 y2 =
     map (\<lambda>k. walk_point (walk_state_at x1 y1 x2 y2 k)) [0..<nat (max \<bar>x2 - x1\<bar> \<bar>y2 - y1\<bar>)]"
  unfolding bresenham_walk_def walk_state_at_def
proof (rule walk_from_states)
  show "\<forall>i<nat (max \<bar>x2 - x1\<bar> \<bar>y2 - y1\<bar>).
          walk_point ((bresenham_step \<bar>x2 - x1\<bar> \<bar>y2 - y1\<bar> (if x1 < x2 then 1 else - 1)
            (if y1 < y2 then 1 else - 1) ^^ i) (x1, y1, \<bar>x2 - x1\<bar> - \<bar>y2 - y1\<bar>)) \<noteq> (x2, y2)"
    using walk_not_at_endpoint [of _ x2 x1 y2 y1] by (simp add: walk_state_at_def)
  show "walk_point ((bresenham_step \<bar>x2 - x1\<bar> \<bar>y2 - y1\<bar> (if x1 < x2 then 1 else - 1)
            (if y1 < y2 then 1 else - 1) ^^ nat (max \<bar>x2 - x1\<bar> \<bar>y2 - y1\<bar>))
            (x1, y1, \<bar>x2 - x1\<bar> - \<bar>y2 - y1\<bar>)) = (x2, y2)"
    using walk_reaches_endpoint [of x1 y1 x2 y2] by (simp add: walk_state_at_def)
  show "nat (max \<bar>x2 - x1\<bar> \<bar>y2 - y1\<bar>) \<le> nat (\<bar>x2 - x1\<bar> + \<bar>y2 - y1\<bar>)"
    by simp
qed

lemma walk_reached_within_fuel:
  "\<exists>k\<le>nat (\<bar>x2 - x1\<bar> + \<bar>y2 - y1\<bar>).
     walk_point ((bresenham_step \<bar>x2 - x1\<bar> \<bar>y2 - y1\<bar> (if x1 < x2 then 1 else - 1)
       (if y1 < y2 then 1 else - 1) ^^ k) (x1, y1, \<bar>x2 - x1\<bar> - \<bar>y2 - y1\<bar>)) = (x2, y2)"
  using walk_reaches_endpoint [of x1 y1 x2 y2]
  by (intro exI [of _ "nat (max \<bar>x2 - x1\<bar> \<bar>y2 - y1\<bar>)"]) (simp add: walk_state_at_def)

lemma has_line_of_sight_walk:
  assumes "wf_map m"
  shows "has_line_of_sight m x1 y1 x2 y2 r =
           Some (Inr (\<bar>x1 - x2\<bar> + \<bar>y1 - y2\<bar> \<le> r \<and>
                      list_all (sees_through m) (bresenham_walk x1 y1 x2 y2)))"
  using los_loop_walk [OF assms walk_reached_within_fuel]
  by (simp add: has_line_of_sight_def bresenham_walk_def)

lemma has_line_of_sight_returns: "\<exists>b. has_line_of_sight m x1 y1 x2 y2 r = Some b"
  using los_loop_returns [OF walk_reached_within_fuel]
  by (simp add: has_line_of_sight_def)


text \<open>
  C2. On a well-formed grid \<open>has_line_of_sight\<close> returns false when the Manhattan distance
  exceeds \<open>max_range\<close>; otherwise it returns true exactly when every point of the Bresenham
  walk from \<open>(x1, y1)\<close>, the start included and the endpoint \<open>(x2, y2)\<close> excluded, is within
  bounds and on a transparent tile. The walk is the first \<open>max(dx, dy)\<close> states of the
  error-accumulator rule: it does not contain the endpoint, and the next state is the
  endpoint.
\<close>

theorem line_of_sight_follows_walk:
  assumes "wf_map m"
  shows "has_line_of_sight m x1 y1 x2 y2 r =
           Some (Inr (\<bar>x1 - x2\<bar> + \<bar>y1 - y2\<bar> \<le> r \<and>
                      list_all (sees_through m) (bresenham_walk x1 y1 x2 y2))) \<and>
         bresenham_walk x1 y1 x2 y2 =
           map (\<lambda>k. walk_point (walk_state_at x1 y1 x2 y2 k))
             [0..<nat (max \<bar>x2 - x1\<bar> \<bar>y2 - y1\<bar>)] \<and>
         (x2, y2) \<notin> set (bresenham_walk x1 y1 x2 y2) \<and>
         walk_point (walk_state_at x1 y1 x2 y2 (length (bresenham_walk x1 y1 x2 y2))) = (x2, y2)"
proof -
  have "(x2, y2) \<notin> set (bresenham_walk x1 y1 x2 y2)"
  proof
    assume "(x2, y2) \<in> set (bresenham_walk x1 y1 x2 y2)"
    then obtain k where k: "k < nat (max \<bar>x2 - x1\<bar> \<bar>y2 - y1\<bar>)"
      and at: "walk_point (walk_state_at x1 y1 x2 y2 k) = (x2, y2)"
      by (auto simp: bresenham_walk_states)
    from k have "int k < max \<bar>x2 - x1\<bar> \<bar>y2 - y1\<bar>" by linarith
    from walk_not_at_endpoint [OF this] at show False by simp
  qed
  moreover have
    "walk_point (walk_state_at x1 y1 x2 y2 (length (bresenham_walk x1 y1 x2 y2))) = (x2, y2)"
    using walk_reaches_endpoint [of x1 y1 x2 y2] by (simp add: bresenham_walk_states)
  ultimately show ?thesis
    using has_line_of_sight_walk [OF assms] bresenham_walk_states by blast
qed

lemma walk_to_1_1_3_1: "bresenham_walk 1 1 3 1 = [(1, 1), (2, 1)]"
  by code_simp

lemma walk_to_1_0_3_1: "bresenham_walk 1 0 3 1 = [(1, 0), (2, 0)]"
  by code_simp

theorem line_of_sight_follows_walk_witness:
  "wf_map corridor_map \<and>
   has_line_of_sight corridor_map 1 1 3 1 8 = Some (Inr True) \<and>
   has_line_of_sight corridor_map 1 1 3 1 1 = Some (Inr False) \<and>
   has_line_of_sight corridor_map 1 0 3 1 8 = Some (Inr False) \<and>
   bresenham_walk 1 1 3 1 = [(1, 1), (2, 1)]"
  using line_of_sight_follows_walk [OF wf_corridor_map, of 1 1 3 1 8]
    line_of_sight_follows_walk [OF wf_corridor_map, of 1 1 3 1 1]
    line_of_sight_follows_walk [OF wf_corridor_map, of 1 0 3 1 8]
  by (simp add: wf_map_def walk_to_1_1_3_1 walk_to_1_0_3_1 sees_through_def
        is_valid_position_def corridor_map_def)

text \<open>
  C5. \<open>has_line_of_sight\<close> returns for all integer inputs, on every grid and for every
  \<open>max_range\<close>. While the walk has not reached the endpoint, that is in each of its first
  \<open>max(dx, dy)\<close> states, at least one of the two error-accumulator branches fires and the
  step strictly decreases the Chebyshev distance to \<open>(x2, y2)\<close>, which is \<open>max(dx, dy) - k\<close>
  after \<open>k\<close> steps; after \<open>max(dx, dy)\<close> steps the walk is at the endpoint.
\<close>

theorem line_of_sight_terminates:
  "(\<exists>b. has_line_of_sight m x1 y1 x2 y2 r = Some b) \<and>
   (\<forall>k. int k < max \<bar>x2 - x1\<bar> \<bar>y2 - y1\<bar> \<longrightarrow>
      walk_point (walk_state_at x1 y1 x2 y2 k) \<noteq> (x2, y2) \<and>
      (x_branch_fires \<bar>x2 - x1\<bar> \<bar>y2 - y1\<bar> (walk_state_at x1 y1 x2 y2 k) \<or>
       y_branch_fires \<bar>x2 - x1\<bar> \<bar>y2 - y1\<bar> (walk_state_at x1 y1 x2 y2 k)) \<and>
      chebyshev (walk_point (walk_state_at x1 y1 x2 y2 k)) (x2, y2) =
        max \<bar>x2 - x1\<bar> \<bar>y2 - y1\<bar> - int k \<and>
      chebyshev (walk_point (walk_state_at x1 y1 x2 y2 (Suc k))) (x2, y2) <
        chebyshev (walk_point (walk_state_at x1 y1 x2 y2 k)) (x2, y2)) \<and>
   walk_point (walk_state_at x1 y1 x2 y2 (nat (max \<bar>x2 - x1\<bar> \<bar>y2 - y1\<bar>))) = (x2, y2)"
proof -
  have step: "walk_point (walk_state_at x1 y1 x2 y2 k) \<noteq> (x2, y2) \<and>
      (x_branch_fires \<bar>x2 - x1\<bar> \<bar>y2 - y1\<bar> (walk_state_at x1 y1 x2 y2 k) \<or>
       y_branch_fires \<bar>x2 - x1\<bar> \<bar>y2 - y1\<bar> (walk_state_at x1 y1 x2 y2 k)) \<and>
      chebyshev (walk_point (walk_state_at x1 y1 x2 y2 k)) (x2, y2) =
        max \<bar>x2 - x1\<bar> \<bar>y2 - y1\<bar> - int k \<and>
      chebyshev (walk_point (walk_state_at x1 y1 x2 y2 (Suc k))) (x2, y2) <
        chebyshev (walk_point (walk_state_at x1 y1 x2 y2 k)) (x2, y2)"
    if k: "int k < max \<bar>x2 - x1\<bar> \<bar>y2 - y1\<bar>" for k
  proof -
    from k have "\<bar>x2 - x1\<bar> \<noteq> 0 \<or> \<bar>y2 - y1\<bar> \<noteq> 0" by auto
    then have "x_branch_fires \<bar>x2 - x1\<bar> \<bar>y2 - y1\<bar> (walk_state_at x1 y1 x2 y2 k) \<or>
       y_branch_fires \<bar>x2 - x1\<bar> \<bar>y2 - y1\<bar> (walk_state_at x1 y1 x2 y2 k)"
      by (intro a_branch_fires) simp_all
    moreover from k have le: "int k \<le> max \<bar>x2 - x1\<bar> \<bar>y2 - y1\<bar>"
      "int (Suc k) \<le> max \<bar>x2 - x1\<bar> \<bar>y2 - y1\<bar>" by simp_all
    note chebyshev_walk_state [OF le(1)] chebyshev_walk_state [OF le(2)]
    ultimately show ?thesis using walk_not_at_endpoint [OF k] by simp
  qed
  with has_line_of_sight_returns [of m x1 y1 x2 y2 r] walk_reaches_endpoint [of x1 y1 x2 y2]
  show ?thesis by blast
qed

theorem line_of_sight_terminates_witness:
  "int 2 < max \<bar>5 - 0\<bar> \<bar>2 - 0\<bar> \<and>
   has_line_of_sight corridor_map 0 0 5 2 8 = Some (Inr False) \<and>
   walk_state_at 0 0 5 2 2 = (2, 1, 4) \<and>
   walk_state_at 0 0 5 2 3 = (3, 1, 2) \<and>
   x_branch_fires \<bar>5 - 0\<bar> \<bar>2 - 0\<bar> (2, 1, 4) \<and>
   chebyshev (2, 1) (5, 2) = 3 \<and>
   chebyshev (3, 1) (5, 2) < chebyshev (2, 1) (5, 2) \<and>
   walk_point (walk_state_at 0 0 5 2 5) = (5, 2)"
proof -
  have s: "walk_state_at 0 0 5 2 2 = (2, 1, 4)" "walk_state_at 0 0 5 2 (Suc 2) = (3, 1, 2)"
    "walk_state_at 0 0 5 2 5 = (5, 2, 3)"
    by code_simp+
  have l: "has_line_of_sight corridor_map 0 0 5 2 8 = Some (Inr False)"
    by (simp add: has_line_of_sight_def los_loop_unfold corridor_map_def is_valid_position_def
          tile_read_def py_index_def)
  from line_of_sight_terminates [of corridor_map 0 0 5 2 8] s l show ?thesis
    by (simp add: walk_point_def x_branch_fires_def chebyshev_def numeral_3_eq_3)
qed

text \<open>
  C6 (amended). With \<open>max_range \<ge> 0\<close> every point has line of sight to itself. To a tile
  \<open>(qx, qy)\<close> next to \<open>(px, py)\<close>, orthogonally or diagonally, and within \<open>max_range\<close>, there
  is line of sight exactly when \<open>(px, py)\<close> itself is within bounds and on a transparent
  tile; the tile at \<open>(qx, qy)\<close> is not looked at.
\<close>

theorem line_of_sight_adjacent:
  assumes "wf_map m"
  shows "(0 \<le> r \<longrightarrow> has_line_of_sight m px py px py r = Some (Inr True)) \<and>
         (\<bar>qx - px\<bar> \<le> 1 \<and> \<bar>qy - py\<bar> \<le> 1 \<and> (qx, qy) \<noteq> (px, py) \<and>
          \<bar>px - qx\<bar> + \<bar>py - qy\<bar> \<le> r \<longrightarrow>
            has_line_of_sight m px py qx qy r = Some (Inr (sees_through m (px, py))))"
proof -
  have "has_line_of_sight m px py px py r = Some (Inr True)" if "0 \<le> r"
    using that by (simp add: has_line_of_sight_def) (subst los_loop_unfold, simp)
  moreover have "has_line_of_sight m px py qx qy r = Some (Inr (sees_through m (px, py)))"
    if adj: "\<bar>qx - px\<bar> \<le> 1" "\<bar>qy - py\<bar> \<le> 1" "(qx, qy) \<noteq> (px, py)"
      and rng: "\<bar>px - qx\<bar> + \<bar>py - qy\<bar> \<le> r"
  proof -
    from adj have "nat (max \<bar>qx - px\<bar> \<bar>qy - py\<bar>) = 1" by auto
    then have "bresenham_walk px py qx qy = [(px, py)]"
      by (simp add: bresenham_walk_states walk_state_at_def walk_point_def)
    with rng show ?thesis by (simp add: has_line_of_sight_walk [OF assms])
  qed
  ultimately show ?thesis by blast
qed

theorem line_of_sight_adjacent_witness:
  "wf_map corridor_map \<and> (0::int) \<le> 8 \<and>
   has_line_of_sight corridor_map 2 1 2 1 8 = Some (Inr True) \<and>
   \<bar>1 - 2\<bar> \<le> (1::int) \<and> \<bar>0 - 1\<bar> \<le> (1::int) \<and> (1::int, 0::int) \<noteq> (2, 1) \<and>
   \<bar>2 - 1\<bar> + \<bar>1 - 0\<bar> \<le> (8::int) \<and>
   sees_through corridor_map (2, 1) \<and>
   get_tile corridor_map 1 0 = Inr (Some WALL) \<and>
   has_line_of_sight corridor_map 2 1 1 0 8 = Some (Inr True)"
  using line_of_sight_adjacent [OF wf_corridor_map, of 8 2 1 1 0]
  by (simp add: wf_map_def sees_through_def is_valid_position_def corridor_map_def
        get_tile_def tile_read_def py_index_def)

text \<open>
  The statement with the transparency of the target fails: from the wall tile (0, 1) the
  transparent floor tile (1, 1) next to it is not seen.
\<close>

theorem line_of_sight_adjacent_counterexample:
  "get_tile corridor_map 0 1 = Inr (Some WALL) \<and>
   get_tile corridor_map 1 1 = Inr (Some FLOOR) \<and>
   TileProperties_is_transparent FLOOR \<and>
   \<bar>0 - 1\<bar> + \<bar>1 - 1\<bar> \<le> (8::int) \<and>
   has_line_of_sight corridor_map 0 1 1 1 8 = Some (Inr False)"
  by (simp add: has_line_of_sight_def los_loop_unfold corridor_map_def is_valid_position_def
        get_tile_def tile_read_def py_index_def)

section \<open>Floor navigation\<close>

text \<open>
  C8. \<open>go_down_stairs\<close> returns true exactly when \<open>current_floor < max_floors\<close>, and then
  \<open>current_floor\<close> has grown by one; \<open>go_up_stairs\<close> returns true exactly when
  \<open>current_floor > 1\<close>, and then \<open>current_floor\<close> has shrunk by one. A call that returns
  false leaves the whole dungeon, the cached floors included, as it was; a call that
  returns true changes no field but \<open>current_floor\<close>.
\<close>

theorem stairs_navigation:
  "fst (go_down_stairs d) = (current_floor d < max_floors d) \<and>
   fst (go_up_stairs d) = (current_floor d > 1) \<and>
   snd (go_down_stairs d) =
     (if current_floor d < max_floors d then d\<lparr>current_floor := current_floor d + 1\<rparr> else d) \<and>
   snd (go_up_stairs d) =
     (if current_floor d > 1 then d\<lparr>current_floor := current_floor d - 1\<rparr> else d) \<and>
   floors (snd (go_down_stairs d)) = floors d \<and>
   floors (snd (go_up_stairs d)) = floors d"
  by (auto simp: go_down_stairs_def go_up_stairs_def)

text \<open>
  The boundary scenario of the tests: a new dungeon has two floors; up fails at floor 1,
  down succeeds once and then fails at floor 2.
\<close>

theorem stairs_navigation_witness:
  "fst (go_up_stairs (Dungeon_init 40 20)) = False \<and>
   current_floor (snd (go_up_stairs (Dungeon_init 40 20))) = 1 \<and>
   fst (go_down_stairs (Dungeon_init 40 20)) = True \<and>
   current_floor (snd (go_down_stairs (Dungeon_init 40 20))) = 2 \<and>
   fst (go_down_stairs (snd (go_down_stairs (Dungeon_init 40 20)))) = False \<and>
   current_floor (snd (go_down_stairs (snd (go_down_stairs (Dungeon_init 40 20))))) = 2"
proof -
  have d0: "current_floor (Dungeon_init 40 20) = 1" "max_floors (Dungeon_init 40 20) = 2"
    by (simp_all add: Dungeon_init_def)
  have d1: "snd (go_down_stairs (Dungeon_init 40 20)) = (Dungeon_init 40 20)\<lparr>current_floor := 2\<rparr>"
    using stairs_navigation [of "Dungeon_init 40 20"] by (simp add: d0)
  from stairs_navigation [of "Dungeon_init 40 20"]
    stairs_navigation [of "(Dungeon_init 40 20)\<lparr>current_floor := 2\<rparr>"]
  show ?thesis by (simp add: d0 d1)
qed

section \<open>The occupancy index\<close>


lemma map_entry_other: "e \<in> set (AList.map_entry k f xs) \<Longrightarrow> fst e \<noteq> k \<Longrightarrow> e \<in> set xs"
  by (induction xs) (auto split: if_splits)

lemma update_other: "e \<in> set (AList.update k v xs) \<Longrightarrow> fst e \<noteq> k \<Longrightarrow> e \<in> set xs"
  by (induction xs) (auto split: if_splits)

lemma set_delete: "set (AList.delete k xs) = {e \<in> set xs. fst e \<noteq> k}"
  by (auto simp: AList.delete_eq)

lemma map_of_entry: "distinct (map fst xs) \<Longrightarrow> e \<in> set xs \<Longrightarrow> map_of xs (fst e) = Some (snd e)"
  by (cases e) simp

lemma keys_list_append_at: "fst ` set (list_append_at pos a ags) = insert pos (fst ` set ags)"
proof (cases "map_of ags pos")
  case None
  then show ?thesis by (simp add: list_append_at_def dom_map_entry dom_update)
next
  case (Some l)
  then have "pos \<in> fst ` set ags" by (force dest: map_of_SomeD)
  with Some show ?thesis by (auto simp: list_append_at_def dom_map_entry)
qed

lemma distinct_list_append_at:
  "distinct (map fst ags) \<Longrightarrow> distinct (map fst (list_append_at pos a ags))"
  by (simp add: list_append_at_def distinct_map_entry distinct_update)

lemma map_of_list_append_at:
  "map_of (list_append_at pos a ags) =
     (map_of ags)(pos \<mapsto> (case map_of ags pos of None \<Rightarrow> [] | Some l \<Rightarrow> l) @ [a])"
  by (rule ext) (simp add: list_append_at_def map_of_map_entry update_conv' split: option.splits)

lemma occupancy_ok_append:
  assumes "occupancy_ok ags"
  shows "occupancy_ok (list_append_at pos a ags)"
proof -
  have d: "distinct (map fst (list_append_at pos a ags))"
    using assms by (simp add: occupancy_ok_def distinct_list_append_at)
  have "snd e \<noteq> []" if e: "e \<in> set (list_append_at pos a ags)" for e
  proof (cases "fst e = pos")
    case True
    with map_of_entry [OF d e] have "map_of (list_append_at pos a ags) pos = Some (snd e)"
      by simp
    then have "(case map_of ags pos of None \<Rightarrow> [] | Some l \<Rightarrow> l) @ [a] = snd e"
      by (simp add: map_of_list_append_at)
    then show ?thesis by (cases "snd e") auto
  next
    case False
    from e have "e \<in> set (if map_of ags pos = None then AList.update pos [] ags else ags)"
      unfolding list_append_at_def using False by (rule map_entry_other)
    with False have "e \<in> set ags"
      by (auto dest: update_other split: if_splits)
    with assms show ?thesis unfolding occupancy_ok_def list_all_iff by (auto simp: case_prod_beta)
  qed
  with d show ?thesis unfolding occupancy_ok_def list_all_iff by (simp add: case_prod_beta)
qed

lemma distinct_list_remove_at:
  "distinct (map fst ags) \<Longrightarrow> distinct (map fst (list_remove_at pos a ags))"
  by (simp add: list_remove_at_def Let_def distinct_map_entry distinct_delete)

lemma map_of_list_remove_at:
  "map_of (list_remove_at pos a ags) =
     (case map_of ags pos of
        None \<Rightarrow> map_of ags
      | Some l \<Rightarrow> if remove1 a l = [] then (map_of ags)(pos := None)
                  else (map_of ags)(pos \<mapsto> remove1 a l))"
  by (rule ext)
     (simp add: list_remove_at_def Let_def map_of_map_entry delete_conv' split: option.splits)

lemma occupancy_ok_remove:
  assumes "occupancy_ok ags"
  shows "occupancy_ok (list_remove_at pos a ags)"
proof -
  have d: "distinct (map fst (list_remove_at pos a ags))"
    using assms by (simp add: occupancy_ok_def distinct_list_remove_at)
  have "snd e \<noteq> []" if e: "e \<in> set (list_remove_at pos a ags)" for e
  proof (cases "fst e = pos")
    case True
    with map_of_entry [OF d e] have "map_of (list_remove_at pos a ags) pos = Some (snd e)"
      by simp
    then show ?thesis by (auto simp: map_of_list_remove_at split: option.splits if_splits)
  next
    case False
    with e have "e \<in> set (AList.map_entry pos (remove1 a) ags)"
      by (auto simp: list_remove_at_def Let_def set_delete split: if_splits)
    with False have "e \<in> set ags" by (simp add: map_entry_other)
    with assms show ?thesis unfolding occupancy_ok_def list_all_iff by (auto simp: case_prod_beta)
  qed
  with d show ?thesis unfolding occupancy_ok_def list_all_iff by (simp add: case_prod_beta)
qed


lemma place_agent_result:
  "place_agent am hp a px py = Inr (ok, am', hp') \<Longrightarrow>
   AgentManager.game_map am' = AgentManager.game_map am \<and>
   (if ok then agents am' = list_append_at (px, py) a (agents am) else agents am' = agents am)"
  by (auto simp: place_agent_def split: sum.splits if_splits)

lemma occupancy_ok_remove_from_old_position:
  "occupancy_ok ags \<Longrightarrow> occupancy_ok (remove_from_old_position ags hp a)"
  by (simp add: remove_from_old_position_def occupancy_ok_remove split: option.splits attr.splits)

lemma move_agent_result:
  "move_agent am hp a px py = Inr (ok, am', hp') \<Longrightarrow>
   AgentManager.game_map am' = AgentManager.game_map am \<and>
   (if ok then agents am' =
        list_append_at (px, py) a (remove_from_old_position (agents am) hp a)
    else agents am' = agents am)"
  by (auto simp: move_agent_def split: sum.splits if_splits)

lemma remove_agent_result:
  "remove_agent am a = (ok, am') \<Longrightarrow> occupancy_ok (agents am) \<Longrightarrow>
   AgentManager.game_map am' = AgentManager.game_map am \<and> occupancy_ok (agents am')"
  by (auto simp: remove_agent_def occupancy_ok_remove split: option.splits)

lemma do_call_result:
  assumes "do_call am hp c = Inr (ok, am', hp')" "occupancy_ok (agents am)"
  shows "AgentManager.game_map am' = AgentManager.game_map am \<and> occupancy_ok (agents am')"
proof (cases c)
  case (Place a px py)
  with assms(1) have "place_agent am hp a px py = Inr (ok, am', hp')" by simp
  from place_agent_result [OF this] assms(2) show ?thesis
    by (cases ok) (simp_all add: occupancy_ok_append)
next
  case (Remove a)
  with assms(1) have "remove_agent am a = (ok, am')" by (simp split: prod.splits)
  from remove_agent_result [OF this assms(2)] show ?thesis .
next
  case (Move a px py)
  with assms(1) have "move_agent am hp a px py = Inr (ok, am', hp')" by simp
  from move_agent_result [OF this] assms(2) show ?thesis
    by (cases ok) (simp_all add: occupancy_ok_append occupancy_ok_remove_from_old_position)
qed

lemma do_call_returns:
  assumes "wf_map (AgentManager.game_map am)"
  shows "\<exists>r. do_call am hp c = Inr r"
proof (cases c)
  case (Place a px py)
  then show ?thesis by (auto simp: place_agent_def is_walkable_wf [OF assms])
next
  case (Remove a)
  then show ?thesis by (simp split: prod.splits)
next
  case (Move a px py)
  then show ?thesis by (auto simp: move_agent_def is_walkable_wf [OF assms])
qed

lemma run_calls_ok:
  "run_calls am hp cs = Inr (am', hp') \<Longrightarrow> occupancy_ok (agents am) \<Longrightarrow> occupancy_ok (agents am')"
proof (induction cs arbitrary: am hp)
  case Nil
  then show ?case by simp
next
  case (Cons c cs)
  from Cons.prems(1) obtain ok am1 hp1 where
    c: "do_call am hp c = Inr (ok, am1, hp1)" and r: "run_calls am1 hp1 cs = Inr (am', hp')"
    by (auto split: sum.splits)
  from do_call_result [OF c Cons.prems(2)] have "occupancy_ok (agents am1)" by simp
  with Cons.IH [OF r] show ?case .
qed

lemma run_calls_returns:
  "wf_map (AgentManager.game_map am) \<Longrightarrow> occupancy_ok (agents am) \<Longrightarrow>
   \<exists>s. run_calls am hp cs = Inr s"
proof (induction cs arbitrary: am hp)
  case Nil
  then show ?case by simp
next
  case (Cons c cs)
  from do_call_returns [OF Cons.prems(1)] obtain ok am1 hp1 where
    c: "do_call am hp c = Inr (ok, am1, hp1)" by (metis prod_cases3)
  from do_call_result [OF c Cons.prems(2)] Cons.prems(1)
  have "wf_map (AgentManager.game_map am1)" "occupancy_ok (agents am1)" by simp_all
  from Cons.IH [OF this] c show ?case by simp
qed

lemmas agent_eval =
  place_agent_def move_agent_def remove_agent_def is_walkable_def is_valid_position_def
  tile_read_def py_index_def corridor_map_def heap_tracked_def heap_bare_def list_append_at_def
  list_remove_at_def remove_from_old_position_def set_position_def AgentManager_init_def Let_def get_agents_at_def

text \<open>
  C4. Starting from the empty index, after any finite sequence of \<open>place_agent\<close>,
  \<open>remove_agent\<close> and \<open>move_agent\<close> calls no coordinate key of the index maps to an empty
  list (and keys stay unique). On a well-formed grid no call raises, so the sequence runs
  to its end.
\<close>

theorem occupancy_never_maps_to_empty_list:
  "(wf_map m \<longrightarrow> (\<exists>s. run_calls (AgentManager_init m) hp cs = Inr s)) \<and>
   (\<forall>am' hp'. run_calls (AgentManager_init m) hp cs = Inr (am', hp') \<longrightarrow>
      list_all (\<lambda>(pos, agent_list). agent_list \<noteq> []) (agents am') \<and>
      distinct (map fst (agents am')))"
proof -
  have ok: "occupancy_ok (agents (AgentManager_init m))"
    by (simp add: AgentManager_init_def occupancy_ok_def)
  have "wf_map m \<Longrightarrow> \<exists>s. run_calls (AgentManager_init m) hp cs = Inr s"
    using run_calls_returns [of "AgentManager_init m" hp cs] ok
    by (simp add: AgentManager_init_def)
  moreover have "occupancy_ok (agents am')"
    if "run_calls (AgentManager_init m) hp cs = Inr (am', hp')" for am' hp'
    using run_calls_ok [OF that ok] .
  ultimately show ?thesis by (auto simp: occupancy_ok_def)
qed

theorem occupancy_never_maps_to_empty_list_witness:
  "wf_map corridor_map \<and>
   map_sum id fst (run_calls (AgentManager_init corridor_map) heap_tracked
     [Place 7 1 1, Place 8 1 1, Move 7 2 1, Remove 8, Move 7 0 0, Place 9 3 1]) =
     Inr \<lparr>AgentManager.game_map = corridor_map, agents = [((2, 1), [7]), ((3, 1), [9])]\<rparr> \<and>
   list_all (\<lambda>(pos, agent_list). agent_list \<noteq> []) [((2, 1), [7::nat]), ((3::int, 1::int), [9])] \<and>
   distinct (map fst [((2::int, 1::int), [7::nat]), ((3, 1), [9])])"
  using occupancy_never_maps_to_empty_list [of corridor_map heap_tracked
      "[Place 7 1 1, Place 8 1 1, Move 7 2 1, Remove 8, Move 7 0 0, Place 9 3 1]"]
  by (simp add: wf_map_def agent_eval)


text \<open>
  C10. For an agent with no recorded position (no \<open>position\<close> attribute, or
  \<open>position\<close> \<open>None\<close>), \<open>move_agent\<close> to a walkable coordinate returns true and appends
  the agent to that coordinate's list, as a placement would; every other coordinate keeps
  its list.
\<close>

theorem move_unplaced_agent_places_it:
  assumes "is_walkable (AgentManager.game_map am) px py = Inr True"
    and "position (hp a) = Absent \<or> position (hp a) = Present None"
  shows "\<exists>am'. move_agent am hp a px py = Inr (True, am', set_position hp a (px, py)) \<and>
           get_agents_at am' px py = get_agents_at am px py @ [a] \<and>
           (\<forall>qx qy. (qx, qy) \<noteq> (px, py) \<longrightarrow> get_agents_at am' qx qy = get_agents_at am qx qy)"
proof -
  from assms(2) have "remove_from_old_position (agents am) hp a = agents am"
    by (auto simp: remove_from_old_position_def)
  with assms(1) have
    "move_agent am hp a px py =
       Inr (True, am\<lparr>agents := list_append_at (px, py) a (agents am)\<rparr>, set_position hp a (px, py))"
    by (simp add: move_agent_def)
  then show ?thesis
    by (simp add: get_agents_at_def map_of_list_append_at)
qed

theorem move_unplaced_agent_places_it_witness:
  "is_walkable (AgentManager.game_map (AgentManager_init corridor_map)) 2 1 = Inr True \<and>
   position (heap_bare 4) = Absent \<and>
   map_sum id fst (move_agent (AgentManager_init corridor_map) heap_bare 4 2 1) = Inr True \<and>
   map_sum id (\<lambda>r. get_agents_at (fst (snd r)) 2 1)
     (move_agent (AgentManager_init corridor_map) heap_bare 4 2 1) = Inr [4]"
  using move_unplaced_agent_places_it [of "AgentManager_init corridor_map" 2 1 heap_bare 4]
  by (simp add: agent_eval)

text \<open>
  C7 (amended). Let agent \<open>A\<close> expose a \<open>position\<close> attribute, and let the index hold no
  agent at \<open>old\<close> nor at \<open>new\<close>, two different coordinates. After a successful
  \<open>place_agent(A, old)\<close> followed by a successful \<open>move_agent(A, new)\<close>,
  \<open>get_agents_at(old)\<close> is empty and \<open>get_agents_at(new)\<close> is the list holding exactly
  \<open>A\<close>.
\<close>

theorem place_then_move:
  assumes attr: "position (hp a) \<noteq> Absent"
    and old_free: "get_agents_at am old_x old_y = []"
    and new_free: "get_agents_at am new_x new_y = []"
    and diff: "(new_x, new_y) \<noteq> (old_x, old_y)"
    and placed: "place_agent am hp a old_x old_y = Inr (True, am1, hp1)"
    and moved: "move_agent am1 hp1 a new_x new_y = Inr (True, am2, hp2)"
  shows "get_agents_at am2 old_x old_y = [] \<and> get_agents_at am2 new_x new_y = [a]"
proof -
  from placed have am1: "agents am1 = list_append_at (old_x, old_y) a (agents am)"
    and hp1: "hp1 = set_position hp a (old_x, old_y)"
    by (auto simp: place_agent_def split: sum.splits if_splits)
  from attr hp1 have pos1: "position (hp1 a) = Present (Some (old_x, old_y))"
    by (cases "position (hp a)") (simp_all add: set_position_def)
  from old_free have at_old: "map_of (agents am1) (old_x, old_y) = Some [a]"
    by (simp add: am1 map_of_list_append_at get_agents_at_def split: option.splits)
  have detached: "map_of (remove_from_old_position (agents am1) hp1 a) =
      (map_of (agents am1))((old_x, old_y) := None)"
    by (simp add: remove_from_old_position_def pos1 at_old map_of_list_remove_at)
  from moved have am2: "agents am2 =
      list_append_at (new_x, new_y) a (remove_from_old_position (agents am1) hp1 a)"
    by (auto simp: move_agent_def split: sum.splits if_splits)
  from new_free diff have at_new: "map_of (agents am1) (new_x, new_y) = None \<or>
      map_of (agents am1) (new_x, new_y) = Some []"
    by (auto simp: am1 map_of_list_append_at get_agents_at_def split: option.splits)
  from diff have "get_agents_at am2 old_x old_y = []"
    by (auto simp: get_agents_at_def am2 map_of_list_append_at detached)
  moreover from diff at_new have "get_agents_at am2 new_x new_y = [a]"
    by (auto simp: get_agents_at_def am2 map_of_list_append_at detached)
  ultimately show ?thesis by simp
qed

theorem place_then_move_witness:
  "position (heap_tracked 4) \<noteq> Absent \<and>
   get_agents_at (AgentManager_init corridor_map) 1 1 = [] \<and>
   get_agents_at (AgentManager_init corridor_map) 2 1 = [] \<and>
   ((2::int), (1::int)) \<noteq> (1, 1) \<and>
   map_sum id fst (place_agent (AgentManager_init corridor_map) heap_tracked 4 1 1) = Inr True \<and>
   map_sum id fst
     (move_agent \<lparr>AgentManager.game_map = corridor_map, agents = [((1, 1), [4])]\<rparr>
        (heap_tracked(4 := \<lparr>position = Present (Some (1, 1)), symbol = Present ''@''\<rparr>)) 4 2 1) =
     Inr True \<and>
   map_sum id (\<lambda>r. (get_agents_at (fst (snd r)) 1 1, get_agents_at (fst (snd r)) 2 1))
     (move_agent \<lparr>AgentManager.game_map = corridor_map, agents = [((1, 1), [4])]\<rparr>
        (heap_tracked(4 := \<lparr>position = Present (Some (1, 1)), symbol = Present ''@''\<rparr>)) 4 2 1) =
     Inr ([], [4])"
  using place_then_move [of heap_tracked 4 "AgentManager_init corridor_map" 1 1 2 1]
  by (simp add: agent_eval)

text \<open>
  Without these conditions the statement fails. An agent with no \<open>position\<close> attribute is
  never detached by \<open>move_agent\<close>: after placing it at (1, 1) and moving it to (2, 1) it
  stands at both. And tiles stack: when agent 5 already stands at (2, 1), moving agent 4
  there gives a list of length 2.
\<close>

theorem place_then_move_counterexample:
  "place_agent (AgentManager_init corridor_map) heap_bare 4 1 1 =
     Inr (True, \<lparr>AgentManager.game_map = corridor_map, agents = [((1, 1), [4])]\<rparr>, heap_bare) \<and>
   move_agent \<lparr>AgentManager.game_map = corridor_map, agents = [((1, 1), [4])]\<rparr> heap_bare 4 2 1 =
     Inr (True, \<lparr>AgentManager.game_map = corridor_map,
                 agents = [((1, 1), [4]), ((2, 1), [4])]\<rparr>, heap_bare) \<and>
   get_agents_at \<lparr>AgentManager.game_map = corridor_map,
                  agents = [((1, 1), [4]), ((2, 1), [4])]\<rparr> 1 1 = [4] \<and>
   place_agent \<lparr>AgentManager.game_map = corridor_map, agents = [((2, 1), [5])]\<rparr>
       heap_tracked 4 1 1 =
     Inr (True,
          \<lparr>AgentManager.game_map = corridor_map, agents = [((2, 1), [5]), ((1, 1), [4])]\<rparr>,
          heap_tracked(4 := \<lparr>position = Present (Some (1, 1)), symbol = Present ''@''\<rparr>)) \<and>
   move_agent
       \<lparr>AgentManager.game_map = corridor_map, agents = [((2, 1), [5]), ((1, 1), [4])]\<rparr>
       (heap_tracked(4 := \<lparr>position = Present (Some (1, 1)), symbol = Present ''@''\<rparr>)) 4 2 1 =
     Inr (True,
          \<lparr>AgentManager.game_map = corridor_map, agents = [((2, 1), [5, 4])]\<rparr>,
          heap_tracked(4 := \<lparr>position = Present (Some (2, 1)), symbol = Present ''@''\<rparr>)) \<and>
   length (get_agents_at
       \<lparr>AgentManager.game_map = corridor_map, agents = [((2, 1), [5, 4])]\<rparr> 2 1) = 2"
  by (simp add: agent_eval)

section \<open>Rendering\<close>

lemma length_get_symbol: "length (TileProperties_get_symbol t) = 1"
  by (cases t) simp_all

lemma tile_cell_wf:
  assumes "wf_map (MapRenderer.game_map r)"
  shows "\<exists>s. tile_cell r px py = Inr s \<and> length s = 1"
  by (simp add: tile_cell_def get_tile_wf [OF assms] length_get_symbol)

lemma get_agents_at_stored:
  "get_agents_at am px py = a # as \<Longrightarrow> ((px, py), a # as) \<in> set (agents am)"
  by (auto simp: get_agents_at_def split: option.splits dest: map_of_SomeD)

lemma render_cell_wf:
  assumes "wf_map (MapRenderer.game_map r)" "single_char_symbols (agent_manager r) hp"
  shows "\<exists>s. render_cell r hp px py = Inr s \<and> length s = 1"
proof (cases "get_agents_at (agent_manager r) px py")
  case Nil
  with tile_cell_wf [OF assms(1)] show ?thesis by (simp add: render_cell_def)
next
  case (Cons a as)
  show ?thesis
  proof (cases "symbol (hp a)")
    case Absent
    with Cons tile_cell_wf [OF assms(1)] show ?thesis by (simp add: render_cell_def)
  next
    case (Present s)
    from get_agents_at_stored [OF Cons] assms(2) have
      "case symbol (hp a) of Absent \<Rightarrow> True | Present s \<Rightarrow> length s = 1"
      by (fastforce simp: single_char_symbols_def list_all_iff)
    with Present Cons show ?thesis by (simp add: render_cell_def)
  qed
qed

lemma render_line_wf:
  assumes "wf_map (MapRenderer.game_map r)" "single_char_symbols (agent_manager r) hp"
  shows "\<exists>l. render_line r hp py xs line = Inr l \<and> length l = length line + length xs"
proof (induction xs arbitrary: line)
  case Nil
  show ?case by simp
next
  case (Cons px xs)
  from render_cell_wf [OF assms] obtain s where
    s: "render_cell r hp px py = Inr s" "length s = 1" by blast
  from Cons [of "line @ s"] s show ?case by simp
qed

lemma render_rows_wf:
  assumes "wf_map (MapRenderer.game_map r)" "single_char_symbols (agent_manager r) hp"
  shows "\<exists>rows. render_rows r hp xs ys acc = Inr rows \<and>
           length rows = length acc + length ys \<and>
           (\<forall>row \<in> set rows. row \<in> set acc \<or> length row = length xs)"
proof (induction ys arbitrary: acc)
  case Nil
  show ?case by simp
next
  case (Cons py ys)
  from render_line_wf [OF assms, of py xs "[]"] obtain l where
    l: "render_line r hp py xs [] = Inr l" "length l = length xs" by auto
  from Cons [of "acc @ [l]"] l show ?case by auto
qed

lemma length_py_range: "int (length (py_range a b)) = max 0 (b - a)"
  by (simp add: py_range_def)

lemma render_map_general:
  assumes "wf_map (MapRenderer.game_map r)" "single_char_symbols (agent_manager r) hp"
  shows "\<exists>rows. render_map r hp viewport_width viewport_height center_x center_y = Inr rows \<and>
           (case viewport_bounds r viewport_width viewport_height center_x center_y of
              (start_x, start_y, end_x, end_y) \<Rightarrow>
                int (length rows) = max 0 (end_y - start_y) \<and>
                (\<forall>row \<in> set rows. int (length row) = max 0 (end_x - start_x)))"
proof -
  obtain sx sy ex ey where
    b: "viewport_bounds r viewport_width viewport_height center_x center_y = (sx, sy, ex, ey)"
    by (metis prod_cases4)
  from render_rows_wf [OF assms, of "py_range sx ex" "py_range sy ey" "[]"] obtain rows where
    rows: "render_rows r hp (py_range sx ex) (py_range sy ey) [] = Inr rows"
      "length rows = length (py_range sy ey)"
      "\<forall>row \<in> set rows. length row = length (py_range sx ex)"
    by auto
  from rows(2) have "int (length rows) = max 0 (ey - sy)" by (simp only: length_py_range)
  moreover from rows(3) have "\<forall>row \<in> set rows. int (length row) = max 0 (ex - sx)"
    by (simp add: length_py_range [symmetric])
  ultimately show ?thesis using rows(1) b by (simp add: render_map_def)
qed

text \<open>
  C9 (amended). On a well-formed grid whose stored agents' symbols, when present, are
  single characters, \<open>render_map\<close> returns rows that all have the same length, namely
  \<open>end_x - start_x\<close> when that is not negative and 0 otherwise, and there are
  \<open>end_y - start_y\<close> rows (none when that is negative). Called with no viewport arguments
  on a grid of width \<open>W \<ge> 0\<close> and height \<open>H \<ge> 0\<close> it returns exactly \<open>H\<close> rows, each of
  length \<open>W\<close>.
\<close>

theorem render_map_rows:
  assumes "wf_map (MapRenderer.game_map r)" "single_char_symbols (agent_manager r) hp"
  shows "(\<exists>rows. render_map r hp viewport_width viewport_height center_x center_y = Inr rows \<and>
           (case viewport_bounds r viewport_width viewport_height center_x center_y of
              (start_x, start_y, end_x, end_y) \<Rightarrow>
                int (length rows) = max 0 (end_y - start_y) \<and>
                (\<forall>row \<in> set rows. int (length row) = max 0 (end_x - start_x)))) \<and>
         (0 \<le> width (MapRenderer.game_map r) \<and> 0 \<le> height (MapRenderer.game_map r) \<longrightarrow>
           (\<exists>rows. render_map r hp None None None None = Inr rows \<and>
              int (length rows) = height (MapRenderer.game_map r) \<and>
              (\<forall>row \<in> set rows. int (length row) = width (MapRenderer.game_map r))))"
proof -
  have "\<exists>rows. render_map r hp None None None None = Inr rows \<and>
              int (length rows) = height (MapRenderer.game_map r) \<and>
              (\<forall>row \<in> set rows. int (length row) = width (MapRenderer.game_map r))"
    if "0 \<le> width (MapRenderer.game_map r)" "0 \<le> height (MapRenderer.game_map r)"
    using render_map_general [OF assms, of None None None None] that
    by (auto simp: viewport_bounds_def Let_def)
  with render_map_general [OF assms, of viewport_width viewport_height center_x center_y]
  show ?thesis by blast
qed

lemmas render_eval =
  render_map_def viewport_bounds_def render_cell_def tile_cell_def get_tile_def
  get_agents_at_def is_valid_position_def tile_read_def py_index_def py_range_def
  corridor_renderer_def corridor_map_def heap_tracked_def Let_def

theorem render_map_rows_witness:
  "wf_map (MapRenderer.game_map corridor_renderer) \<and>
   single_char_symbols (agent_manager corridor_renderer) heap_tracked \<and>
   render_map corridor_renderer heap_tracked None None None None =
     Inr [''#####'', ''#.@.#'', ''#####''] \<and>
   render_map corridor_renderer heap_tracked (Some 2) (Some 3) (Some 2) (Some 1) =
     Inr [''##'', ''.@'', ''##'']"
  using render_map_rows [of corridor_renderer heap_tracked None None None None]
  by (simp add: render_eval wf_map_def single_char_symbols_def upto.simps)

text \<open>
  A viewport centred beyond the right edge has \<open>start_x > end_x\<close>: the rows are empty,
  not of length \<open>end_x - start_x\<close>.
\<close>

theorem render_map_rows_counterexample:
  "viewport_bounds corridor_renderer (Some 2) (Some 2) (Some 9) (Some 1) = (8, 0, 5, 2) \<and>
   render_map corridor_renderer heap_tracked (Some 2) (Some 2) (Some 9) (Some 1) =
     Inr ['''', ''''] \<and>
   int (length '''') \<noteq> 5 - 8"
  by (simp add: render_eval upto.simps)

end
